theory Spec2Isabelle
  imports Main "HOL-Library.Word" "HOL-Library.AList"
begin

section \<open>The chunked upload engine of \<^verbatim>\<open>boxsdk/util/chunked_uploader.py\<close>\<close>

text \<open>
  The engine (\<^verbatim>\<open>ChunkedUploader\<close>) splits a byte stream into parts of a fixed size, hashes
  every part into a rolling SHA-1, uploads it through an upload session and finally
  commits the session. Its collaborators are the content stream (a Python file object)
  and the upload session (a remote service). Both are modelled as state machines that
  the engine drives; every call that can raise returns a sum, \<open>Inl\<close> being the exception.
\<close>

subsection \<open>Data\<close>

type_synonym bytes = "8 word list"

datatype error =
    BoxException_aborted
  | AssertionError
  | StreamIOError nat
  | SessionError nat

text \<open>A part record as the server returns it: the dictionary with the keys
  \<^verbatim>\<open>offset\<close>, \<^verbatim>\<open>size\<close> and \<^verbatim>\<open>sha1\<close>. Such a dictionary is never empty, hence always
  truthy in Python.\<close>

record part =
  part_offset :: int
  part_len :: int
  part_sha1 :: bytes

datatype file_object = File nat

text \<open>The class \<^verbatim>\<open>InflightPart\<close>. Its back-reference to the upload session is the
  session the engine itself holds, so it is not repeated here. The class defines neither
  \<^verbatim>\<open>__bool__\<close> nor \<^verbatim>\<open>__len__\<close>: an instance is truthy whatever its chunk.\<close>

record InflightPart =
  offset :: int
  chunk :: bytes
  total_size :: int

subsection \<open>The content stream\<close>

text \<open>
  A call \<^verbatim>\<open>read(n)\<close> of a Python byte stream returns at most \<open>n\<close> bytes, or \<^verbatim>\<open>b''\<close> at the
  end of the stream, or \<^verbatim>\<open>None\<close> when no byte is ready yet, or it raises. A stream is a
  finite script of such outcomes followed by an ending: after the script the stream is
  either exhausted (every read returns \<^verbatim>\<open>b''\<close>) or blocked (every read returns
  \<^verbatim>\<open>None\<close>, for ever). A \<open>Data\<close> entry holds bytes that are ready; a read takes up to
  \<open>n\<close> of them and leaves the others for the next read, so short reads are scripts of
  several \<open>Data\<close> entries.
\<close>

datatype read_event = Data bytes | NotReady | ReadError nat

datatype stream_end = Exhausted | Blocked

record stream =
  script :: "read_event list"
  at_end :: stream_end

fun stream_read :: "stream \<Rightarrow> nat \<Rightarrow> (error + bytes option) \<times> stream" where
  "stream_read s n =
     (case script s of
        [] \<Rightarrow> (case at_end s of
                 Exhausted \<Rightarrow> (Inr (Some []), s)
               | Blocked \<Rightarrow> (Inr None, s))
      | NotReady # rest \<Rightarrow> (Inr None, s\<lparr>script := rest\<rparr>)
      | ReadError c # rest \<Rightarrow> (Inl (StreamIOError c), s\<lparr>script := rest\<rparr>)
      | Data bs # rest \<Rightarrow>
          (Inr (Some (take n bs)),
           s\<lparr>script := (if drop n bs = [] then rest else Data (drop n bs) # rest)\<rparr>))"

subsection \<open>The upload session\<close>

text \<open>
  The session is a remote service: its two attributes and its four operations, each
  operation a transition of the server state \<open>'sv\<close> that returns a value or raises.
  Nothing is assumed about the operations; a theorem that needs a property of the
  collaborator states it as a hypothesis.
\<close>

record 'sv upload_session =
  total_parts :: int
  part_size :: int
  get_parts :: "'sv \<Rightarrow> (error + part list) \<times> 'sv"
  upload_part_bytes :: "bytes \<Rightarrow> int \<Rightarrow> int \<Rightarrow> 'sv \<Rightarrow> (error + part) \<times> 'sv"
  commit :: "bytes \<Rightarrow> part list \<Rightarrow> 'sv \<Rightarrow> (error + file_object) \<times> 'sv"
  session_abort :: "'sv \<Rightarrow> (error + bool) \<times> 'sv"

text \<open>
  What the engine does to the outside is recorded in a trace: every call of a session
  operation with its arguments and, for the claims about the digest, every update of the
  rolling hash with the offset of the part that was hashed. The trace is only written,
  never read: it has no influence on the run.
\<close>

datatype event =
    GetParts
  | UploadPartBytes bytes int int
  | Commit bytes "part list"
  | Abort
  | Sha1Update int bytes

record 'sv world =
  server :: 'sv
  trace :: "event list"

subsection \<open>The engine\<close>

text \<open>
  The fields of \<^verbatim>\<open>ChunkedUploader\<close>. The hash object \<^verbatim>\<open>_sha1\<close> is represented by the
  message it has been fed so far: \<^verbatim>\<open>update(c)\<close> appends \<open>c\<close>, and \<^verbatim>\<open>digest()\<close> is the
  SHA-1 of that message, which the model passes on as the message itself. The dictionary
  \<^verbatim>\<open>_part_definitions\<close> is an association list with the updates of a Python dictionary.
\<close>

record ChunkedUploader =
  content_stream :: "stream option"
  file_size :: int
  part_array :: "part list"
  sha1 :: bytes
  part_definitions :: "(int \<times> part) list"
  inflight_part :: "InflightPart option"
  is_aborted :: bool

definition init :: "stream \<Rightarrow> int \<Rightarrow> ChunkedUploader" where
  "init cs fsize =
     \<lparr>content_stream = Some cs, file_size = fsize, part_array = [], sha1 = [],
      part_definitions = [], inflight_part = None, is_aborted = False\<rparr>"

text \<open>The \<^verbatim>\<open>while\<close> loop of \<^verbatim>\<open>_get_next_part\<close>. On a blocked stream it never returns, which
  is the value \<open>None\<close>.\<close>

partial_function (option) read_chunk ::
  "int \<Rightarrow> int \<Rightarrow> bytes \<Rightarrow> stream \<Rightarrow> ((error + bytes) \<times> stream) option" where
  "read_chunk psize copied_length chnk s =
     (if copied_length < psize then
        (case stream_read s (nat (psize - copied_length)) of
           (Inl err, s') \<Rightarrow> Some (Inl err, s')
         | (Inr None, s') \<Rightarrow> read_chunk psize copied_length chnk s'
         | (Inr (Some bytes_read), s') \<Rightarrow>
             if bytes_read = [] then Some (Inr chnk, s')
             else read_chunk psize (copied_length + int (length bytes_read))
                    (chnk @ bytes_read) s')
      else Some (Inr chnk, s))"

declare read_chunk.simps [code]

definition get_next_part ::
  "'sv upload_session \<Rightarrow> ChunkedUploader \<Rightarrow> ((error + InflightPart) \<times> ChunkedUploader) option" where
  "get_next_part ses e =
     (case content_stream e of
        None \<Rightarrow> Some (Inl AssertionError, e)
      | Some s \<Rightarrow>
          (case read_chunk (part_size ses) 0 [] s of
             None \<Rightarrow> None
           | Some (Inl err, s') \<Rightarrow> Some (Inl err, e\<lparr>content_stream := Some s'\<rparr>)
           | Some (Inr c, s') \<Rightarrow>
               Some (Inr \<lparr>offset = int (length (part_array e)) * part_size ses,
                          chunk = c, total_size = file_size e\<rparr>,
                     e\<lparr>content_stream := Some s'\<rparr>)))"

text \<open>\<^verbatim>\<open>InflightPart.upload\<close>: one call of \<^verbatim>\<open>upload_part_bytes\<close>.\<close>

definition InflightPart_upload ::
  "'sv upload_session \<Rightarrow> InflightPart \<Rightarrow> 'sv world \<Rightarrow> (error + part) \<times> 'sv world" where
  "InflightPart_upload ses p w =
     (case upload_part_bytes ses (chunk p) (offset p) (total_size p) (server w) of
        (r, sv') \<Rightarrow>
          (r, w\<lparr>server := sv',
                trace := trace w @ [UploadPartBytes (chunk p) (offset p) (total_size p)]\<rparr>))"

lemma get_next_part_part_array:
  "get_next_part ses e = Some (r, e') \<Longrightarrow> part_array e' = part_array e"
  by (auto simp: get_next_part_def split: option.splits sum.splits prod.splits)

text \<open>\<^verbatim>\<open>ChunkedUploader._upload\<close>. The result is the exception that ended the loop, if
  any, with the state it left behind.\<close>

function upload ::
  "'sv upload_session \<Rightarrow> ChunkedUploader \<Rightarrow> 'sv world \<Rightarrow>
     (error option \<times> ChunkedUploader \<times> 'sv world) option" where
  "upload ses e w =
     (if int (length (part_array e)) < total_parts ses then
        (case (case inflight_part e of
                 Some p \<Rightarrow> Some (Inr p, e)
               | None \<Rightarrow> get_next_part ses e) of
           None \<Rightarrow> None
         | Some (Inl err, e1) \<Rightarrow> Some (Some err, e1, w)
         | Some (Inr next_part, e1) \<Rightarrow>
             (let e2 = e1\<lparr>inflight_part := Some next_part,
                          sha1 := sha1 e1 @ chunk next_part\<rparr>;
                  w2 = w\<lparr>trace := trace w @
                          [Sha1Update (offset next_part) (chunk next_part)]\<rparr>
              in case (case map_of (part_definitions e2) (offset next_part) of
                         Some cached \<Rightarrow> (Inr cached, w2)
                       | None \<Rightarrow> InflightPart_upload ses next_part w2) of
                   (Inl err, w3) \<Rightarrow> Some (Some err, e2, w3)
                 | (Inr uploaded_part, w3) \<Rightarrow>
                     upload ses
                       (e2\<lparr>inflight_part := None,
                           part_array := part_array e2 @ [uploaded_part],
                           part_definitions :=
                             AList.update (offset next_part) uploaded_part
                               (part_definitions e2)\<rparr>)
                       w3))
      else Some (None, e, w))"
  by pat_completeness auto
termination
proof (relation "measure (\<lambda>(ses, e, w). nat (total_parts ses - int (length (part_array e))))")
  show "wf (measure (\<lambda>(ses, e, w). nat (total_parts ses - int (length (part_array e)))))"
    by simp
next
  fix ses :: "'sv upload_session" and e :: ChunkedUploader and w :: "'sv world"
    and x2 x1 x2a b next_part e2 w2 x y x2b w3 uploaded_part
  assume lt: "int (length (part_array e)) < total_parts ses"
    and nxt: "(case inflight_part e of None \<Rightarrow> get_next_part ses e
               | Some p \<Rightarrow> Some (Inr p, e)) = Some x2"
    and x2: "(x1, x2a) = x2" and x1: "x1 = Inr next_part"
    and e2: "e2 = x2a\<lparr>inflight_part := Some next_part, sha1 := sha1 x2a @ chunk next_part\<rparr>"
  from nxt x2 have "part_array x2a = part_array e"
    by (auto split: option.splits dest: get_next_part_part_array)
  with lt e2
  show "((ses,
          e2\<lparr>inflight_part := None, part_array := part_array e2 @ [uploaded_part],
             part_definitions :=
               AList.update (offset next_part) uploaded_part (part_definitions e2)\<rparr>,
          w3),
         ses, e, w)
        \<in> measure (\<lambda>(ses, e, w). nat (total_parts ses - int (length (part_array e))))"
    by simp
qed

declare upload.simps [simp del]

text \<open>The last three statements of \<^verbatim>\<open>start\<close> and of \<^verbatim>\<open>resume\<close> are the same: run the
  loop, take the digest, commit with the digest and the committed parts.\<close>

definition upload_then_commit ::
  "'sv upload_session \<Rightarrow> ChunkedUploader \<Rightarrow> 'sv world \<Rightarrow>
     ((error + file_object) \<times> ChunkedUploader \<times> 'sv world) option" where
  "upload_then_commit ses e w =
     (case upload ses e w of
        None \<Rightarrow> None
      | Some (Some err, e', w') \<Rightarrow> Some (Inl err, e', w')
      | Some (None, e', w') \<Rightarrow>
          (case commit ses (sha1 e') (part_array e') (server w') of
             (r, sv') \<Rightarrow>
               Some (r, e', w'\<lparr>server := sv',
                               trace := trace w' @ [Commit (sha1 e') (part_array e')]\<rparr>)))"

text \<open>\<^verbatim>\<open>ChunkedUploader.start\<close>.\<close>

definition start ::
  "'sv upload_session \<Rightarrow> ChunkedUploader \<Rightarrow> 'sv world \<Rightarrow>
     ((error + file_object) \<times> ChunkedUploader \<times> 'sv world) option" where
  "start ses e w =
     (if is_aborted e then Some (Inl BoxException_aborted, e, w)
      else upload_then_commit ses e w)"

text \<open>The \<^verbatim>\<open>for part in parts\<close> loop of \<^verbatim>\<open>resume\<close>: two tests of the in-flight part,
  one after the other, then the update of the definitions.\<close>

fun reconcile :: "part list \<Rightarrow> ChunkedUploader \<Rightarrow> ChunkedUploader" where
  "reconcile [] e = e"
| "reconcile (p # ps) e =
     (let e1 = (case inflight_part e of
                  Some ip \<Rightarrow>
                    if part_offset p \<le> offset ip
                    then e\<lparr>part_array := part_array e @ [p]\<rparr> else e
                | None \<Rightarrow> e);
          e2 = (case inflight_part e1 of
                  Some ip \<Rightarrow>
                    if part_offset p = offset ip
                    then e1\<lparr>inflight_part := None\<rparr> else e1
                | None \<Rightarrow> e1)
      in reconcile ps
           (e2\<lparr>part_definitions := AList.update (part_offset p) p (part_definitions e2)\<rparr>))"

text \<open>\<^verbatim>\<open>ChunkedUploader.resume\<close>. When \<^verbatim>\<open>get_parts\<close> raises, the committed parts have not
  been reset yet.\<close>

definition resume ::
  "'sv upload_session \<Rightarrow> ChunkedUploader \<Rightarrow> 'sv world \<Rightarrow>
     ((error + file_object) \<times> ChunkedUploader \<times> 'sv world) option" where
  "resume ses e w =
     (if is_aborted e then Some (Inl BoxException_aborted, e, w)
      else
        (case get_parts ses (server w) of
           (Inl err, sv') \<Rightarrow>
             Some (Inl err, e, w\<lparr>server := sv', trace := trace w @ [GetParts]\<rparr>)
         | (Inr parts, sv') \<Rightarrow>
             upload_then_commit ses (reconcile parts (e\<lparr>part_array := []\<rparr>))
               (w\<lparr>server := sv', trace := trace w @ [GetParts]\<rparr>)))"

text \<open>\<^verbatim>\<open>ChunkedUploader.abort\<close>: four assignments, then the remote call.\<close>

definition abort ::
  "'sv upload_session \<Rightarrow> ChunkedUploader \<Rightarrow> 'sv world \<Rightarrow>
     (error + bool) \<times> ChunkedUploader \<times> 'sv world" where
  "abort ses e w =
     (let e' = e\<lparr>content_stream := None, part_array := [], inflight_part := None,
                 is_aborted := True\<rparr>
      in case session_abort ses (server w) of
           (r, sv') \<Rightarrow> (r, e', w\<lparr>server := sv', trace := trace w @ [Abort]\<rparr>))"

subsection \<open>A caller\<close>

text \<open>A caller of the engine makes a sequence of calls on one instance and sees what each
  returns or raises.\<close>

datatype call = CallStart | CallResume | CallAbort

datatype outcome = ReturnedFile file_object | ReturnedBool bool | Raised error

fun file_outcome :: "error + file_object \<Rightarrow> outcome" where
  "file_outcome (Inl err) = Raised err"
| "file_outcome (Inr f) = ReturnedFile f"

fun bool_outcome :: "error + bool \<Rightarrow> outcome" where
  "bool_outcome (Inl err) = Raised err"
| "bool_outcome (Inr b) = ReturnedBool b"

fun run_call ::
  "'sv upload_session \<Rightarrow> call \<Rightarrow> ChunkedUploader \<Rightarrow> 'sv world \<Rightarrow>
     (outcome \<times> ChunkedUploader \<times> 'sv world) option" where
  "run_call ses CallStart e w =
     (case start ses e w of None \<Rightarrow> None
      | Some (r, e', w') \<Rightarrow> Some (file_outcome r, e', w'))"
| "run_call ses CallResume e w =
     (case resume ses e w of None \<Rightarrow> None
      | Some (r, e', w') \<Rightarrow> Some (file_outcome r, e', w'))"
| "run_call ses CallAbort e w =
     (case abort ses e w of (r, e', w') \<Rightarrow> Some (bool_outcome r, e', w'))"

fun run_calls ::
  "'sv upload_session \<Rightarrow> call list \<Rightarrow> ChunkedUploader \<Rightarrow> 'sv world \<Rightarrow>
     (outcome list \<times> ChunkedUploader \<times> 'sv world) option" where
  "run_calls ses [] e w = Some ([], e, w)"
| "run_calls ses (c # cs) e w =
     (case run_call ses c e w of
        None \<Rightarrow> None
      | Some (out, e', w') \<Rightarrow>
          (case run_calls ses cs e' w' of
             None \<Rightarrow> None
           | Some (outs, e'', w'') \<Rightarrow> Some (out # outs, e'', w'')))"

subsection \<open>A session to run the engine against\<close>

text \<open>
  A small upload session for concrete runs. The server keeps the parts it has stored and a
  countdown: the upload call on which the countdown stands at one raises and stores
  nothing, every other upload stores the part and returns its record (the part's content
  stands for its checksum). A countdown of zero never raises.
\<close>

type_synonym test_server = "part list \<times> nat"

definition test_upload ::
  "bytes \<Rightarrow> int \<Rightarrow> int \<Rightarrow> test_server \<Rightarrow> (error + part) \<times> test_server" where
  "test_upload bs off tot sv =
     (if snd sv = 1 then (Inl (SessionError 0), (fst sv, 0))
      else
        (Inr \<lparr>part_offset = off, part_len = int (length bs), part_sha1 = bs\<rparr>,
         (fst sv @ [\<lparr>part_offset = off, part_len = int (length bs), part_sha1 = bs\<rparr>],
          snd sv - 1)))"

definition test_session :: "int \<Rightarrow> int \<Rightarrow> test_server upload_session" where
  "test_session n psize =
     \<lparr>total_parts = n, part_size = psize,
      get_parts = (\<lambda>sv. (Inr (fst sv), sv)),
      upload_part_bytes = test_upload,
      commit = (\<lambda>d ps sv. (Inr (File 0), sv)),
      session_abort = (\<lambda>sv. (Inr True, ([], snd sv)))\<rparr>"

text \<open>Concrete inputs for the runs below.\<close>

definition demo_stream :: stream where
  "demo_stream = \<lparr>script = [Data [1, 2, 3], NotReady, Data [4, 5], Data [6]], at_end = Exhausted\<rparr>"

definition demo_world :: "nat \<Rightarrow> test_server world" where
  "demo_world k = \<lparr>server = ([], k), trace = []\<rparr>"

definition demo_part :: "int \<Rightarrow> bytes \<Rightarrow> part" where
  "demo_part off bs = \<lparr>part_offset = off, part_len = int (length bs), part_sha1 = bs\<rparr>"

text \<open>A session whose remote abort raises.\<close>

definition refusing_session :: "test_server upload_session" where
  "refusing_session = (test_session 3 2)\<lparr>session_abort := (\<lambda>sv. (Inl (SessionError 7), sv))\<rparr>"

text \<open>A stream of eight bytes, and a session of four parts of two bytes whose listing
  names the parts at offsets 0 and 4 and not the part at offset 2 between them.\<close>

definition eight_bytes :: stream where
  "eight_bytes =
     \<lparr>script = [Data [1, 2, 3, 4, 5], NotReady, Data [6, 7, 8]], at_end = Exhausted\<rparr>"

definition gap_listing :: "part list" where
  "gap_listing = [demo_part 0 [1, 2], demo_part 4 [5, 6]]"

definition gap_session :: "test_server upload_session" where
  "gap_session = (test_session 4 2)\<lparr>get_parts := (\<lambda>sv. (Inr gap_listing, sv))\<rparr>"

subsection \<open>What the claims speak of\<close>

text \<open>The rebuilt list of committed parts as the specification words it: the longest
  consecutive prefix of the listing whose offsets are at most \<open>x\<close>. A prefix is consecutive
  when each of its parts begins where the part before it ends.\<close>

fun consecutive_run :: "part list \<Rightarrow> part list" where
  "consecutive_run [] = []"
| "consecutive_run [p] = [p]"
| "consecutive_run (p # q # ps) =
     (if part_offset q = part_offset p + part_len p then p # consecutive_run (q # ps) else [p])"

definition longest_consecutive_prefix_upto :: "int \<Rightarrow> part list \<Rightarrow> part list" where
  "longest_consecutive_prefix_upto x ps =
     takeWhile (\<lambda>p. part_offset p \<le> x) (consecutive_run ps)"

text \<open>The listing up to and including its first part at offset \<open>x\<close> (the whole listing when
  there is none).\<close>

definition upto_inflight :: "int \<Rightarrow> part list \<Rightarrow> part list" where
  "upto_inflight x ps =
     takeWhile (\<lambda>p. part_offset p \<noteq> x) ps @ take 1 (dropWhile (\<lambda>p. part_offset p \<noteq> x) ps)"

text \<open>The bytes a script delivers, whatever the reads that deliver them.\<close>

fun delivered :: "read_event list \<Rightarrow> bytes" where
  "delivered [] = []"
| "delivered (Data bs # es) = bs @ delivered es"
| "delivered (NotReady # es) = delivered es"
| "delivered (ReadError c # es) = delivered es"

text \<open>A clean script delivers its bytes without raising and has no zero-length read before
  its end; without a read error it merely does not raise.\<close>

fun clean :: "read_event list \<Rightarrow> bool" where
  "clean [] = True"
| "clean (Data bs # es) = (bs \<noteq> [] \<and> clean es)"
| "clean (NotReady # es) = clean es"
| "clean (ReadError c # es) = False"

fun no_read_error :: "read_event list \<Rightarrow> bool" where
  "no_read_error [] = True"
| "no_read_error (Data bs # es) = no_read_error es"
| "no_read_error (NotReady # es) = no_read_error es"
| "no_read_error (ReadError c # es) = False"

text \<open>The size of a script, which every read makes smaller.\<close>

fun weight :: "read_event list \<Rightarrow> nat" where
  "weight [] = 0"
| "weight (Data bs # es) = Suc (length bs + weight es)"
| "weight (NotReady # es) = Suc (weight es)"
| "weight (ReadError c # es) = Suc (weight es)"

text \<open>The updates of the hash and the upload calls that a trace records, in order.\<close>

fun sha1_updates :: "event list \<Rightarrow> (int \<times> bytes) list" where
  "sha1_updates [] = []"
| "sha1_updates (Sha1Update off c # t) = (off, c) # sha1_updates t"
| "sha1_updates (ev # t) = sha1_updates t"

fun upload_calls :: "event list \<Rightarrow> (bytes \<times> int \<times> int) list" where
  "upload_calls [] = []"
| "upload_calls (UploadPartBytes bs off tot # t) = (bs, off, tot) # upload_calls t"
| "upload_calls (ev # t) = upload_calls t"

text \<open>A session whose uploads never raise, whatever the state of the server.\<close>

definition never_raises :: "'sv upload_session \<Rightarrow> bool" where
  "never_raises ses =
     (\<forall>bs off tot sv. \<exists>p sv'. upload_part_bytes ses bs off tot sv = (Inr p, sv'))"

text \<open>Such a session, for concrete runs: every upload is stored and its record returned.\<close>

definition echo_session :: "int \<Rightarrow> int \<Rightarrow> (part list) upload_session" where
  "echo_session n psize =
     \<lparr>total_parts = n, part_size = psize,
      get_parts = (\<lambda>sv. (Inr sv, sv)),
      upload_part_bytes = (\<lambda>bs off tot sv. (Inr (demo_part off bs), sv @ [demo_part off bs])),
      commit = (\<lambda>d ps sv. (Inr (File 0), sv)),
      session_abort = (\<lambda>sv. (Inr True, []))\<rparr>"

text \<open>A stream that ends after three bytes.\<close>

definition short_stream :: stream where
  "short_stream = \<lparr>script = [NotReady, Data [1, 2, 3]], at_end = Exhausted\<rparr>"

text \<open>The body of the \<^verbatim>\<open>while\<close> loop of \<^verbatim>\<open>_upload\<close>, taken alone: the exception that ended it,
  if any, and the state after it. Lemma \<open>upload_unfold\<close> below shows that the loop is the
  iteration of this body.\<close>

definition record_part :: "ChunkedUploader \<Rightarrow> InflightPart \<Rightarrow> part \<Rightarrow> ChunkedUploader" where
  "record_part e2 next_part uploaded_part =
     e2\<lparr>inflight_part := None,
        part_array := part_array e2 @ [uploaded_part],
        part_definitions :=
          AList.update (offset next_part) uploaded_part (part_definitions e2)\<rparr>"

definition upload_iteration ::
  "'sv upload_session \<Rightarrow> ChunkedUploader \<Rightarrow> 'sv world \<Rightarrow>
     (error option \<times> ChunkedUploader \<times> 'sv world) option" where
  "upload_iteration ses e w =
     (case (case inflight_part e of
              Some p \<Rightarrow> Some (Inr p, e)
            | None \<Rightarrow> get_next_part ses e) of
        None \<Rightarrow> None
      | Some (Inl err, e1) \<Rightarrow> Some (Some err, e1, w)
      | Some (Inr next_part, e1) \<Rightarrow>
          (let e2 = e1\<lparr>inflight_part := Some next_part,
                       sha1 := sha1 e1 @ chunk next_part\<rparr>;
               w2 = w\<lparr>trace := trace w @
                       [Sha1Update (offset next_part) (chunk next_part)]\<rparr>
           in case (case map_of (part_definitions e2) (offset next_part) of
                      Some cached \<Rightarrow> (Inr cached, w2)
                    | None \<Rightarrow> InflightPart_upload ses next_part w2) of
                (Inl err, w3) \<Rightarrow> Some (Some err, e2, w3)
              | (Inr uploaded_part, w3) \<Rightarrow>
                  Some (None, record_part e2 next_part uploaded_part, w3)))"

text \<open>The contract of \<^verbatim>\<open>upload_part_bytes\<close>: it returns the record of the range it was given,
  with the offset it was given and the number of bytes as the size.\<close>

definition echoes :: "'sv upload_session \<Rightarrow> bool" where
  "echoes ses =
     (\<forall>bs off tot sv. \<exists>p sv'. upload_part_bytes ses bs off tot sv = (Inr p, sv') \<and>
        part_offset p = off \<and> part_len p = int (length bs))"

text \<open>The same contract for a session that may raise: whenever an upload returns, it
  returns the record of the range it was given.\<close>

definition records_the_range :: "'sv upload_session \<Rightarrow> bool" where
  "records_the_range ses =
     (\<forall>bs off tot sv p sv'. upload_part_bytes ses bs off tot sv = (Inr p, sv') \<longrightarrow>
        part_offset p = off \<and> part_len p = int (length bs))"

text \<open>A stream of five bytes.\<close>

definition odd_stream :: stream where
  "odd_stream = \<lparr>script = [Data [1, 2, 3], NotReady, Data [4, 5]], at_end = Exhausted\<rparr>"

section \<open>Properties\<close>

subsection \<open>Abort\<close>

lemma start_aborted: "is_aborted e \<Longrightarrow> start ses e w = Some (Inl BoxException_aborted, e, w)"
  by (simp add: start_def)

lemma resume_aborted: "is_aborted e \<Longrightarrow> resume ses e w = Some (Inl BoxException_aborted, e, w)"
  by (simp add: resume_def)

lemma abort_engine:
  "fst (snd (abort ses e w)) =
     e\<lparr>content_stream := None, part_array := [], inflight_part := None, is_aborted := True\<rparr>"
  by (simp add: abort_def Let_def split: prod.splits)

lemma abort_is_aborted: "abort ses e w = (r, e', w') \<Longrightarrow> is_aborted e'"
  using abort_engine [of ses e w] by simp

lemma run_call_aborted:
  assumes "is_aborted e"
  shows "\<exists>out e' w'. run_call ses c e w = Some (out, e', w') \<and> is_aborted e' \<and>
           (c \<noteq> CallAbort \<longrightarrow> out = Raised BoxException_aborted \<and> e' = e \<and> w' = w)"
proof (cases c)
  case CallStart
  with assms show ?thesis by (simp add: start_aborted)
next
  case CallResume
  with assms show ?thesis by (simp add: resume_aborted)
next
  case CallAbort
  obtain r e' w' where a: "abort ses e w = (r, e', w')" by (cases "abort ses e w") auto
  with CallAbort abort_is_aborted [OF a] show ?thesis by simp
qed

lemma run_calls_aborted:
  "is_aborted e \<Longrightarrow>
     \<exists>outs e' w'. run_calls ses cs e w = Some (outs, e', w') \<and> is_aborted e' \<and>
        length outs = length cs \<and>
        (\<forall>i < length cs. cs ! i \<noteq> CallAbort \<longrightarrow> outs ! i = Raised BoxException_aborted)"
proof (induction cs arbitrary: e w)
  case Nil
  then show ?case by simp
next
  case (Cons c cs)
  from run_call_aborted [OF Cons.prems, of ses c w]
  obtain out e1 w1 where 1: "run_call ses c e w = Some (out, e1, w1)" "is_aborted e1"
    and out: "c \<noteq> CallAbort \<longrightarrow> out = Raised BoxException_aborted" by blast
  from Cons.IH [OF 1(2), of w1]
  obtain outs e2 w2 where 2: "run_calls ses cs e1 w1 = Some (outs, e2, w2)" "is_aborted e2"
    "length outs = length cs"
    and outs: "\<forall>i < length cs. cs ! i \<noteq> CallAbort \<longrightarrow> outs ! i = Raised BoxException_aborted"
    by blast
  have "\<forall>i < length (c # cs). (c # cs) ! i \<noteq> CallAbort \<longrightarrow> (out # outs) ! i = Raised BoxException_aborted"
  proof (intro allI impI)
    fix i assume "i < length (c # cs)" "(c # cs) ! i \<noteq> CallAbort"
    then show "(out # outs) ! i = Raised BoxException_aborted"
      using out outs by (cases i) auto
  qed
  with 1 2 show ?case by simp
qed

text \<open>
  Claim C9. \<^verbatim>\<open>abort\<close> clears the content stream, empties the committed parts, clears the
  in-flight part and sets the aborted flag before it calls the remote abort: whatever the
  remote call returns or raises, the engine is left aborted with this state, and the
  definitions and the hash are as they were. The call is recorded, its result is the
  result of \<^verbatim>\<open>abort\<close>.
\<close>

theorem abort_clears_state_before_remote_call:
  "abort ses e w =
     (fst (session_abort ses (server w)),
      e\<lparr>content_stream := None, part_array := [], inflight_part := None, is_aborted := True\<rparr>,
      w\<lparr>server := snd (session_abort ses (server w)), trace := trace w @ [Abort]\<rparr>)"
  by (simp add: abort_def split: prod.splits)

theorem abort_clears_state_before_remote_call_witness:
  "abort refusing_session
     ((init demo_stream 6)\<lparr>part_definitions := [(0, demo_part 0 [1, 2])], sha1 := [1, 2]\<rparr>)
     (demo_world 0) =
   (Inl (SessionError 7),
    \<lparr>content_stream = None, file_size = 6, part_array = [], sha1 = [1, 2],
     part_definitions = [(0, demo_part 0 [1, 2])], inflight_part = None, is_aborted = True\<rparr>,
    \<lparr>server = ([], 0), trace = [Abort]\<rparr>)"
  using abort_clears_state_before_remote_call [of refusing_session
     "(init demo_stream 6)\<lparr>part_definitions := [(0, demo_part 0 [1, 2])], sha1 := [1, 2]\<rparr>"
     "demo_world 0"]
  by (simp add: refusing_session_def test_session_def init_def demo_world_def)

text \<open>
  Claim C5. Once \<^verbatim>\<open>abort\<close> has been called (whether the remote call returned or raised),
  the engine is aborted; \<^verbatim>\<open>start\<close> and \<^verbatim>\<open>resume\<close> raise the aborted-state error and
  change nothing; after any further sequence of calls the engine is still aborted and
  every \<^verbatim>\<open>start\<close> and \<^verbatim>\<open>resume\<close> among them raised that error; a second \<^verbatim>\<open>abort\<close> leaves
  the engine as it is, calls the remote abort again and returns its result.
\<close>

theorem abort_is_terminal:
  assumes "abort ses e w = (r, e1, w1)"
  shows "is_aborted e1 \<and>
    start ses e1 w1 = Some (Inl BoxException_aborted, e1, w1) \<and>
    resume ses e1 w1 = Some (Inl BoxException_aborted, e1, w1) \<and>
    (\<exists>outs e2 w2. run_calls ses cs e1 w1 = Some (outs, e2, w2) \<and> is_aborted e2 \<and>
        length outs = length cs \<and>
        (\<forall>i < length cs. cs ! i \<noteq> CallAbort \<longrightarrow> outs ! i = Raised BoxException_aborted)) \<and>
    abort ses e1 w1 =
      (fst (session_abort ses (server w1)), e1,
       w1\<lparr>server := snd (session_abort ses (server w1)), trace := trace w1 @ [Abort]\<rparr>)"
proof -
  have ab: "is_aborted e1" using assms by (rule abort_is_aborted)
  have e1: "e1 = e\<lparr>content_stream := None, part_array := [], inflight_part := None, is_aborted := True\<rparr>"
    using abort_engine [of ses e w] assms by simp
  have again: "abort ses e1 w1 =
      (fst (session_abort ses (server w1)), e1,
       w1\<lparr>server := snd (session_abort ses (server w1)), trace := trace w1 @ [Abort]\<rparr>)"
    by (simp add: abort_def e1 split: prod.splits)
  from ab again run_calls_aborted [OF ab, of ses cs w1] show ?thesis
    by (simp add: start_aborted resume_aborted)
qed

theorem abort_is_terminal_witness:
  "fst (abort (test_session 3 2) (init demo_stream 6) (demo_world 0)) = Inr True \<and>
   is_aborted (fst (snd (abort (test_session 3 2) (init demo_stream 6) (demo_world 0)))) \<and>
   map_option fst
     (run_calls (test_session 3 2) [CallStart, CallAbort, CallResume]
        (fst (snd (abort (test_session 3 2) (init demo_stream 6) (demo_world 0))))
        (snd (snd (abort (test_session 3 2) (init demo_stream 6) (demo_world 0))))) =
     Some [Raised BoxException_aborted, ReturnedBool True, Raised BoxException_aborted]"
proof -
  have h: "abort (test_session 3 2) (init demo_stream 6) (demo_world 0) =
      (Inr True, (init demo_stream 6)\<lparr>content_stream := None, part_array := [],
                   inflight_part := None, is_aborted := True\<rparr>,
       \<lparr>server = ([], 0), trace = [Abort]\<rparr>)"
    by (simp add: abort_def test_session_def demo_world_def)
  show ?thesis
    using abort_is_terminal [OF h, of "[CallStart, CallAbort, CallResume]"]
    by (simp add: h start_def resume_def abort_def test_session_def)
qed

subsection \<open>What resume rebuilds from the listing\<close>

lemma resume_unfold:
  "\<not> is_aborted e \<Longrightarrow> get_parts ses (server w) = (Inr parts, sv') \<Longrightarrow>
     resume ses e w =
       upload_then_commit ses (reconcile parts (e\<lparr>part_array := []\<rparr>))
         (w\<lparr>server := sv', trace := trace w @ [GetParts]\<rparr>)"
  by (simp add: resume_def)

text \<open>
  Claim C7. When no part has been uploaded (the committed parts are empty, no part is in
  flight, and \<^verbatim>\<open>get_parts\<close> returns the empty listing), \<^verbatim>\<open>resume\<close> does what \<^verbatim>\<open>start\<close>
  does after the listing call: the same uploads, the same commit with the same digest and
  parts, the same file or exception, the same final state.
\<close>

theorem resume_with_nothing_uploaded_is_start:
  assumes "\<not> is_aborted e" "part_array e = []" "inflight_part e = None"
    and "get_parts ses (server w) = (Inr [], sv')"
  shows "resume ses e w = start ses e (w\<lparr>server := sv', trace := trace w @ [GetParts]\<rparr>)"
proof -
  have eq: "e\<lparr>part_array := []\<rparr> = e" using assms(2) by (cases e) simp
  show ?thesis using assms(1,4) by (simp add: resume_def start_def eq)
qed

theorem resume_with_nothing_uploaded_is_start_witness:
  "\<not> is_aborted (init demo_stream 6) \<and> part_array (init demo_stream 6) = [] \<and>
   inflight_part (init demo_stream 6) = None \<and>
   get_parts (test_session 3 2) (server (demo_world 0)) = (Inr [], ([], 0)) \<and>
   resume (test_session 3 2) (init demo_stream 6) (demo_world 0) =
     start (test_session 3 2) (init demo_stream 6)
       ((demo_world 0)\<lparr>server := ([], 0), trace := trace (demo_world 0) @ [GetParts]\<rparr>)"
proof -
  have 1: "\<not> is_aborted (init demo_stream 6)" and 2: "part_array (init demo_stream 6) = []"
    and 3: "inflight_part (init demo_stream 6) = None" by (simp_all add: init_def)
  have 4: "get_parts (test_session 3 2) (server (demo_world 0)) = (Inr [], ([], 0))"
    by (simp add: test_session_def demo_world_def)
  from resume_with_nothing_uploaded_is_start [OF 1 2 3 4] 1 2 3 4 show ?thesis by simp
qed

lemma find_append':
  "find P (xs @ ys) = (case find P xs of None \<Rightarrow> find P ys | Some x \<Rightarrow> Some x)"
  by (induction xs) auto

lemma reconcile_fields:
  "content_stream (reconcile ps e) = content_stream e \<and> sha1 (reconcile ps e) = sha1 e \<and>
   file_size (reconcile ps e) = file_size e \<and> is_aborted (reconcile ps e) = is_aborted e"
  by (induction ps arbitrary: e) (auto simp: Let_def split: option.splits)

lemma reconcile_no_inflight:
  "inflight_part e = None \<Longrightarrow>
     part_array (reconcile ps e) = part_array e \<and> inflight_part (reconcile ps e) = None"
  by (induction ps arbitrary: e) (auto simp: Let_def)

lemma reconcile_definitions:
  "map_of (part_definitions (reconcile ps e)) off =
     (case find (\<lambda>p. part_offset p = off) (rev ps) of
        Some p \<Rightarrow> Some p
      | None \<Rightarrow> map_of (part_definitions e) off)"
proof (induction ps arbitrary: e)
  case Nil
  show ?case by simp
next
  case (Cons p ps)
  show ?case
    by (simp add: Let_def Cons.IH find_append' update_conv' split: option.splits)
qed

lemma upto_inflight_Cons:
  "upto_inflight x (p # ps) = (if part_offset p = x then [p] else p # upto_inflight x ps)"
  by (simp add: upto_inflight_def)

lemma reconcile_inflight:
  "inflight_part e = Some ip \<Longrightarrow>
     part_array (reconcile ps e) =
       part_array e @ filter (\<lambda>p. part_offset p \<le> offset ip) (upto_inflight (offset ip) ps) \<and>
     inflight_part (reconcile ps e) =
       (if \<exists>p \<in> set ps. part_offset p = offset ip then None else Some ip)"
proof (induction ps arbitrary: e)
  case Nil
  then show ?case by (simp add: upto_inflight_def)
next
  case (Cons p ps)
  show ?case
  proof (cases "part_offset p = offset ip")
    case True
    with Cons.prems show ?thesis
      by (simp add: Let_def upto_inflight_Cons reconcile_no_inflight)
  next
    case False
    with Cons.prems Cons.IH show ?thesis
      by (simp add: Let_def upto_inflight_Cons)
  qed
qed

lemma set_upto_inflight: "set (upto_inflight x ps) \<subseteq> set ps"
proof (induction ps)
  case Nil
  show ?case by (simp add: upto_inflight_def)
next
  case (Cons p ps)
  then show ?case by (auto simp: upto_inflight_Cons)
qed

lemma sorted_listing_prefix:
  "sorted_wrt (\<lambda>p q. part_offset p < part_offset q) ps \<Longrightarrow>
     filter (\<lambda>p. part_offset p \<le> x) (upto_inflight x ps) =
       takeWhile (\<lambda>p. part_offset p \<le> x) ps"
proof (induction ps)
  case Nil
  show ?case by (simp add: upto_inflight_def)
next
  case (Cons p ps)
  from Cons.prems have later: "\<forall>q \<in> set ps. part_offset p < part_offset q"
    and srt: "sorted_wrt (\<lambda>p q. part_offset p < part_offset q) ps" by simp_all
  show ?case
  proof (cases "part_offset p < x")
    case True
    with Cons.IH [OF srt] show ?thesis by (simp add: upto_inflight_Cons)
  next
    case False
    with later have gt: "\<forall>q \<in> set ps. \<not> part_offset q \<le> x" by auto
    then have "takeWhile (\<lambda>p. part_offset p \<le> x) ps = []"
      by (cases ps) auto
    moreover from gt set_upto_inflight [of x ps]
    have "filter (\<lambda>p. part_offset p \<le> x) (upto_inflight x ps) = []"
      by (auto simp: filter_empty_conv)
    ultimately show ?thesis using False by (simp add: upto_inflight_Cons)
  qed
qed

lemma consecutive_listing_sorted:
  "consecutive_run ps = ps \<Longrightarrow> \<forall>p \<in> set ps. 0 < part_len p \<Longrightarrow>
     sorted_wrt (\<lambda>p q. part_offset p < part_offset q) ps"
proof (induction ps rule: consecutive_run.induct)
  case 1
  show ?case by simp
next
  case (2 p)
  show ?case by simp
next
  case (3 p q ps)
  from "3.prems"(1) have adj: "part_offset q = part_offset p + part_len p"
    and rest: "consecutive_run (q # ps) = q # ps"
    by (auto split: if_splits)
  from "3.IH" [OF adj rest] "3.prems"(2)
  have s: "sorted_wrt (\<lambda>p q. part_offset p < part_offset q) (q # ps)" by simp
  from adj "3.prems"(2) have lt: "part_offset p < part_offset q" by simp
  with s have "\<forall>r \<in> set (q # ps). part_offset p < part_offset r" by auto
  with s show ?case by simp
qed

text \<open>On a listing without a gap the loop of \<^verbatim>\<open>resume\<close> rebuilds the committed parts as the
  specification words them.\<close>

lemma reconcile_consecutive_listing:
  assumes "inflight_part e = Some ip" and "consecutive_run ps = ps"
    and "\<forall>p \<in> set ps. 0 < part_len p"
  shows "part_array (reconcile ps (e\<lparr>part_array := []\<rparr>)) =
           longest_consecutive_prefix_upto (offset ip) ps"
proof -
  from reconcile_inflight [of "e\<lparr>part_array := []\<rparr>" ip ps] assms(1)
  have "part_array (reconcile ps (e\<lparr>part_array := []\<rparr>)) =
      filter (\<lambda>p. part_offset p \<le> offset ip) (upto_inflight (offset ip) ps)"
    by simp
  with sorted_listing_prefix [OF consecutive_listing_sorted [OF assms(2,3)], of "offset ip"]
  show ?thesis by (simp add: longest_consecutive_prefix_upto_def assms(2))
qed

text \<open>
  Claim C3: with a part in flight, \<^verbatim>\<open>resume\<close> rebuilds the committed parts as the longest
  consecutive prefix of the listing whose offsets are at most the offset of the part in
  flight, clears the part in flight if and only if a listed part has its offset, and enters
  every listed part in the definitions. The last two hold (\<open>reconcile_inflight\<close>,
  \<open>reconcile_definitions\<close>), and so does the first on a listing without a gap
  (\<open>reconcile_consecutive_listing\<close>). On a listing with a gap the code departs from the
  claim, and from the comment above the loop, which speaks of the first consecutive run of
  uploaded parts up to the part in flight: the loop compares each listed part with the offset
  of the part in flight only, and never with the part listed before it.

  Eight bytes go up in four parts of two. \<^verbatim>\<open>start\<close> fails at the upload of the fourth part,
  which stays in flight at offset 6. The listing then names the parts at offsets 0 and 4.
  \<^verbatim>\<open>resume\<close> enters the upload loop with both as committed parts, where the longest consecutive
  prefix of the listing is the part at offset 0 alone.
\<close>

theorem resume_keeps_listed_parts_beyond_a_gap:
  "map_option
     (\<lambda>(rs, e, w).
        (rs, inflight_part e, fst (get_parts gap_session (server w)),
         resume gap_session e w =
           upload_then_commit gap_session (reconcile gap_listing (e\<lparr>part_array := []\<rparr>))
             (w\<lparr>trace := trace w @ [GetParts]\<rparr>),
         part_array (reconcile gap_listing (e\<lparr>part_array := []\<rparr>))))
     (run_calls gap_session [CallStart] (init eight_bytes 8) (demo_world 4)) =
     Some ([Raised (SessionError 0)],
           Some \<lparr>offset = 6, chunk = [7, 8], total_size = 8\<rparr>,
           Inr [demo_part 0 [1, 2], demo_part 4 [5, 6]],
           True,
           [demo_part 0 [1, 2], demo_part 4 [5, 6]]) \<and>
   longest_consecutive_prefix_upto 6 [demo_part 0 [1, 2], demo_part 4 [5, 6]] =
     [demo_part 0 [1, 2]]"
  by (intro conjI; code_simp)

text \<open>
  Claim C4, as stated: with no part in flight, \<^verbatim>\<open>resume\<close> rebuilds the committed parts from
  the whole listing. Both tests of the loop ask for a part in flight first, so without one
  nothing is appended: the committed parts stay empty.
\<close>

theorem resume_without_inflight_starts_empty_counterexample:
  "part_array (reconcile [demo_part 0 [1, 2]] ((init demo_stream 6)\<lparr>part_array := []\<rparr>)) \<noteq>
     [demo_part 0 [1, 2]]"
  by (simp add: init_def)

text \<open>
  Claim C4, amended. With no part in flight, \<^verbatim>\<open>resume\<close> enters the upload loop with no
  committed part at all and no part in flight, and with every listed part in the
  definitions under its offset. The loop then starts again at offset 0 and finds the
  listed parts in the definitions.
\<close>

theorem resume_without_inflight_starts_empty:
  assumes "\<not> is_aborted e" and "inflight_part e = None"
    and "get_parts ses (server w) = (Inr parts, sv')"
  shows "\<exists>e1. resume ses e w =
            upload_then_commit ses e1 (w\<lparr>server := sv', trace := trace w @ [GetParts]\<rparr>) \<and>
          part_array e1 = [] \<and> inflight_part e1 = None \<and>
          (\<forall>off. map_of (part_definitions e1) off =
             (case find (\<lambda>p. part_offset p = off) (rev parts) of
                Some p \<Rightarrow> Some p
              | None \<Rightarrow> map_of (part_definitions e) off))"
proof -
  let ?e1 = "reconcile parts (e\<lparr>part_array := []\<rparr>)"
  have "resume ses e w =
      upload_then_commit ses ?e1 (w\<lparr>server := sv', trace := trace w @ [GetParts]\<rparr>)"
    using assms(1,3) by (rule resume_unfold)
  moreover have "part_array ?e1 = [] \<and> inflight_part ?e1 = None"
    using reconcile_no_inflight [of "e\<lparr>part_array := []\<rparr>" parts] assms(2) by simp
  moreover have "\<forall>off. map_of (part_definitions ?e1) off =
             (case find (\<lambda>p. part_offset p = off) (rev parts) of
                Some p \<Rightarrow> Some p
              | None \<Rightarrow> map_of (part_definitions e) off)"
    by (simp add: reconcile_definitions cong: option.case_cong)
  ultimately show ?thesis by blast
qed

theorem resume_without_inflight_starts_empty_witness:
  "\<not> is_aborted (init demo_stream 6) \<and> inflight_part (init demo_stream 6) = None \<and>
   get_parts (test_session 3 2) (server \<lparr>server = ([demo_part 0 [1, 2]], 0), trace = []\<rparr>) =
     (Inr [demo_part 0 [1, 2]], ([demo_part 0 [1, 2]], 0)) \<and>
   resume (test_session 3 2) (init demo_stream 6)
       \<lparr>server = ([demo_part 0 [1, 2]], 0), trace = []\<rparr> =
     upload_then_commit (test_session 3 2)
       (reconcile [demo_part 0 [1, 2]] ((init demo_stream 6)\<lparr>part_array := []\<rparr>))
       \<lparr>server = ([demo_part 0 [1, 2]], 0), trace = [GetParts]\<rparr> \<and>
   part_array (reconcile [demo_part 0 [1, 2]] ((init demo_stream 6)\<lparr>part_array := []\<rparr>)) = [] \<and>
   map_of (part_definitions
       (reconcile [demo_part 0 [1, 2]] ((init demo_stream 6)\<lparr>part_array := []\<rparr>))) 0 =
     Some (demo_part 0 [1, 2])"
proof -
  have 1: "\<not> is_aborted (init demo_stream 6)" and 2: "inflight_part (init demo_stream 6) = None"
    by (simp_all add: init_def)
  have 3: "get_parts (test_session 3 2)
        (server \<lparr>server = ([demo_part 0 [1, 2]], 0), trace = []\<rparr>) =
      (Inr [demo_part 0 [1, 2]], ([demo_part 0 [1, 2]], 0))"
    by (simp add: test_session_def)
  from resume_without_inflight_starts_empty [OF 1 2 3] 1 2 3 show ?thesis
    by (simp add: resume_def init_def demo_part_def)
qed

subsection \<open>Reading a chunk\<close>

lemma read_chunk_done:
  "\<not> copied < psize \<Longrightarrow> read_chunk psize copied ch s = Some (Inr ch, s)"
  by (subst read_chunk.simps) simp

lemma read_chunk_empty_exhausted:
  "copied < psize \<Longrightarrow> script s = [] \<Longrightarrow> at_end s = Exhausted \<Longrightarrow>
     read_chunk psize copied ch s = Some (Inr ch, s)"
  by (subst read_chunk.simps) simp

lemma read_chunk_not_ready:
  "copied < psize \<Longrightarrow> script s = NotReady # es \<Longrightarrow>
     read_chunk psize copied ch s = read_chunk psize copied ch (s\<lparr>script := es\<rparr>)"
  by (subst read_chunk.simps) simp

lemma read_chunk_error:
  "copied < psize \<Longrightarrow> script s = ReadError c # es \<Longrightarrow>
     read_chunk psize copied ch s = Some (Inl (StreamIOError c), s\<lparr>script := es\<rparr>)"
  by (subst read_chunk.simps) simp

lemma read_chunk_zero_length:
  "copied < psize \<Longrightarrow> script s = Data [] # es \<Longrightarrow>
     read_chunk psize copied ch s = Some (Inr ch, s\<lparr>script := es\<rparr>)"
  by (subst read_chunk.simps) simp

lemma read_chunk_data:
  "copied < psize \<Longrightarrow> script s = Data bs # es \<Longrightarrow> bs \<noteq> [] \<Longrightarrow>
     read_chunk psize copied ch s =
       read_chunk psize (copied + int (min (length bs) (nat (psize - copied))))
         (ch @ take (nat (psize - copied)) bs)
         (s\<lparr>script := (if drop (nat (psize - copied)) bs = [] then es
                         else Data (drop (nat (psize - copied)) bs) # es)\<rparr>)"
  by (subst read_chunk.simps) (simp add: min_def)

lemma read_chunk_returns:
  "at_end s = Exhausted \<Longrightarrow>
     \<exists>r s'. read_chunk psize copied ch s = Some (r, s') \<and> at_end s' = Exhausted \<and>
       (no_read_error (script s) \<longrightarrow> (\<exists>c. r = Inr c) \<and> no_read_error (script s'))"
proof (induction "weight (script s)" arbitrary: s copied ch rule: less_induct)
  case less
  show ?case
  proof (cases "copied < psize")
    case False
    with less.prems show ?thesis by (simp add: read_chunk_done)
  next
    case lt: True
    show ?thesis
    proof (cases "script s")
      case Nil
      with lt less.prems show ?thesis by (simp add: read_chunk_empty_exhausted)
    next
      case (Cons ev es)
      show ?thesis
      proof (cases ev)
        case NotReady
        let ?s = "s\<lparr>script := es\<rparr>"
        from Cons NotReady have "weight (script ?s) < weight (script s)" by simp
        moreover from less.prems have "at_end ?s = Exhausted" by simp
        ultimately obtain r s' where "read_chunk psize copied ch ?s = Some (r, s')"
          "at_end s' = Exhausted"
          "no_read_error (script ?s) \<longrightarrow> (\<exists>c. r = Inr c) \<and> no_read_error (script s')"
          using less.hyps [of ?s copied ch] by blast
        with lt Cons NotReady show ?thesis by (simp add: read_chunk_not_ready)
      next
        case (ReadError c)
        with lt Cons less.prems show ?thesis by (simp add: read_chunk_error)
      next
        case (Data bs)
        show ?thesis
        proof (cases "bs = []")
          case True
          with lt Cons Data less.prems show ?thesis by (simp add: read_chunk_zero_length)
        next
          case False
          let ?n = "nat (psize - copied)"
          let ?s = "s\<lparr>script := (if drop ?n bs = [] then es else Data (drop ?n bs) # es)\<rparr>"
          from lt have "0 < ?n" by simp
          with Cons Data False have "weight (script ?s) < weight (script s)" by auto
          moreover from less.prems have "at_end ?s = Exhausted" by simp
          ultimately obtain r s' where
            "read_chunk psize (copied + int (min (length bs) ?n)) (ch @ take ?n bs) ?s = Some (r, s')"
            "at_end s' = Exhausted"
            "no_read_error (script ?s) \<longrightarrow> (\<exists>c. r = Inr c) \<and> no_read_error (script s')"
            using less.hyps [of ?s "copied + int (min (length bs) ?n)" "ch @ take ?n bs"] by blast
          moreover have "no_read_error (script s) \<longrightarrow> no_read_error (script ?s)"
            using Cons Data by simp
          ultimately show ?thesis
            using read_chunk_data [OF lt _ False, of s es ch] Cons Data by auto
        qed
      qed
    qed
  qed
qed

lemma nat_diff_int: "nat (a - (b + int k)) = nat (a - b) - k"
  by arith

lemma read_chunk_clean:
  "clean (script s) \<Longrightarrow>
   at_end s = Exhausted \<or> nat (psize - copied) \<le> length (delivered (script s)) \<Longrightarrow>
     \<exists>s'. read_chunk psize copied ch s =
            Some (Inr (ch @ take (nat (psize - copied)) (delivered (script s))), s') \<and>
          delivered (script s') = drop (nat (psize - copied)) (delivered (script s)) \<and>
          clean (script s') \<and> at_end s' = at_end s"
proof (induction "weight (script s)" arbitrary: s copied ch rule: less_induct)
  case less
  show ?case
  proof (cases "copied < psize")
    case False
    with less.prems show ?thesis by (simp add: read_chunk_done)
  next
    case lt: True
    show ?thesis
    proof (cases "script s")
      case Nil
      with lt less.prems show ?thesis by (simp add: read_chunk_empty_exhausted)
    next
      case (Cons ev es)
      show ?thesis
      proof (cases ev)
        case NotReady
        let ?s = "s\<lparr>script := es\<rparr>"
        from Cons NotReady have "weight (script ?s) < weight (script s)" by simp
        moreover from less.prems Cons NotReady have "clean (script ?s)"
          "at_end ?s = Exhausted \<or> nat (psize - copied) \<le> length (delivered (script ?s))"
          by simp_all
        ultimately show ?thesis
          using less.hyps [of ?s copied ch] lt Cons NotReady
          by (simp add: read_chunk_not_ready)
      next
        case (ReadError c)
        with Cons less.prems show ?thesis by simp
      next
        case (Data bs)
        with Cons less.prems have ne: "bs \<noteq> []" and cl: "clean es" by simp_all
        let ?n = "nat (psize - copied)"
        let ?s = "s\<lparr>script := (if drop ?n bs = [] then es else Data (drop ?n bs) # es)\<rparr>"
        let ?c = "copied + int (min (length bs) ?n)"
        from lt have n: "0 < ?n" by simp
        with Cons Data ne have w: "weight (script ?s) < weight (script s)" by auto
        have cs: "clean (script ?s)" using cl by simp
        have d: "delivered (script ?s) = drop ?n bs @ delivered es" by simp
        have n': "nat (psize - ?c) = ?n - min (length bs) ?n" by (simp add: min_def)
        have e: "at_end ?s = Exhausted \<or> nat (psize - ?c) \<le> length (delivered (script ?s))"
          using less.prems(2) Cons Data by (auto simp: n' d min_def)
        from less.hyps [OF w cs e, of "ch @ take ?n bs"]
        obtain s' where r: "read_chunk psize ?c (ch @ take ?n bs) ?s =
              Some (Inr ((ch @ take ?n bs) @ take (nat (psize - ?c)) (delivered (script ?s))), s')"
          and r': "delivered (script s') = drop (nat (psize - ?c)) (delivered (script ?s))"
            "clean (script s')" "at_end s' = at_end ?s"
          by blast
        have t: "take ?n bs @ take (nat (psize - ?c)) (delivered (script ?s)) =
            take ?n (bs @ delivered es)"
          by (simp add: nat_diff_int min_def)
        have dr: "drop (nat (psize - ?c)) (delivered (script ?s)) = drop ?n (bs @ delivered es)"
          by (simp add: nat_diff_int min_def)
        from r r' t dr show ?thesis
          using read_chunk_data [OF lt _ ne, of s es ch] Cons Data by simp
      qed
    qed
  qed
qed

lemma read_chunk_empty_blocked:
  assumes "copied < psize" and "script s = []" and "at_end s = Blocked"
  shows "read_chunk psize copied ch s = None"
proof (cases "read_chunk psize copied ch s")
  case None
  then show ?thesis .
next
  case (Some r)
  have "\<not> (copied < psize \<and> script s = [] \<and> at_end s = Blocked)"
  proof (rule read_chunk.raw_induct
      [where P = "\<lambda>psize copied ch s r. \<not> (copied < psize \<and> script s = [] \<and> at_end s = Blocked)",
        OF _ Some])
    fix f psize copied ch s and r :: "(error + bytes) \<times> stream"
    assume IH: "\<And>psize copied ch s r. f psize copied ch s = Some r \<Longrightarrow>
        \<not> (copied < psize \<and> script s = [] \<and> at_end s = Blocked)"
      and eq: "(if copied < psize then
          (case stream_read s (nat (psize - copied)) of
             (Inl err, s') \<Rightarrow> Some (Inl err, s')
           | (Inr None, s') \<Rightarrow> f psize copied ch s'
           | (Inr (Some bytes_read), s') \<Rightarrow>
               if bytes_read = [] then Some (Inr ch, s')
               else f psize (copied + int (length bytes_read)) (ch @ bytes_read) s')
        else Some (Inr ch, s)) = Some r"
    show "\<not> (copied < psize \<and> script s = [] \<and> at_end s = Blocked)"
    proof
      assume a: "copied < psize \<and> script s = [] \<and> at_end s = Blocked"
      with eq have "f psize copied ch s = Some r" by simp
      from IH [OF this] a show False by simp
    qed
  qed
  with assms show ?thesis by simp
qed

lemma read_chunk_blocked:
  "clean (script s) \<Longrightarrow> at_end s = Blocked \<Longrightarrow>
   length (delivered (script s)) < nat (psize - copied) \<Longrightarrow>
     read_chunk psize copied ch s = None"
proof (induction "weight (script s)" arbitrary: s copied ch rule: less_induct)
  case less
  from less.prems(3) have lt: "copied < psize" by simp
  show ?case
  proof (cases "script s")
    case Nil
    with lt less.prems show ?thesis by (simp add: read_chunk_empty_blocked)
  next
    case (Cons ev es)
    show ?thesis
    proof (cases ev)
      case NotReady
      let ?s = "s\<lparr>script := es\<rparr>"
      from Cons NotReady have "weight (script ?s) < weight (script s)" by simp
      moreover from less.prems Cons NotReady have "clean (script ?s)" "at_end ?s = Blocked"
        "length (delivered (script ?s)) < nat (psize - copied)" by simp_all
      ultimately show ?thesis
        using less.hyps [of ?s copied ch] lt Cons NotReady by (simp add: read_chunk_not_ready)
    next
      case (ReadError c)
      with Cons less.prems show ?thesis by simp
    next
      case (Data bs)
      with Cons less.prems have ne: "bs \<noteq> []" and cl: "clean es" by simp_all
      let ?n = "nat (psize - copied)"
      let ?s = "s\<lparr>script := (if drop ?n bs = [] then es else Data (drop ?n bs) # es)\<rparr>"
      let ?c = "copied + int (min (length bs) ?n)"
      from lt have n: "0 < ?n" by simp
      with Cons Data ne have w: "weight (script ?s) < weight (script s)" by auto
      have cs: "clean (script ?s)" using cl by simp
      have b: "at_end ?s = Blocked" using less.prems(2) by simp
      have l: "length (delivered (script ?s)) < nat (psize - ?c)"
        using less.prems(3) Cons Data by (simp add: nat_diff_int min_def)
      from less.hyps [OF w cs b l, of "ch @ take ?n bs"] show ?thesis
        using read_chunk_data [OF lt _ ne, of s es ch] Cons Data by simp
    qed
  qed
qed

text \<open>
  Claim C8. On a stream that delivers its bytes without raising, \<^verbatim>\<open>_get_next_part\<close>
  returns the next \<^verbatim>\<open>part_size\<close> bytes of the stream, fewer only when the stream ends
  before, and leaves the bytes after them in the stream: the reads that return \<^verbatim>\<open>None\<close> are
  passed over wherever they stand. When the stream blocks for ever with fewer than
  \<^verbatim>\<open>part_size\<close> bytes delivered, the assembly does not return a short chunk: it does not
  return.
\<close>

theorem chunk_assembly_waits_for_bytes_or_end:
  assumes "content_stream e = Some s" and "clean (script s)"
  shows "(at_end s = Exhausted \<or> nat (part_size ses) \<le> length (delivered (script s)) \<longrightarrow>
           (\<exists>s'. get_next_part ses e =
                   Some (Inr \<lparr>offset = int (length (part_array e)) * part_size ses,
                              chunk = take (nat (part_size ses)) (delivered (script s)),
                              total_size = file_size e\<rparr>,
                         e\<lparr>content_stream := Some s'\<rparr>) \<and>
                 delivered (script s') = drop (nat (part_size ses)) (delivered (script s)) \<and>
                 clean (script s') \<and> at_end s' = at_end s)) \<and>
         (at_end s = Blocked \<and> length (delivered (script s)) < nat (part_size ses) \<longrightarrow>
            get_next_part ses e = None)"
proof (intro conjI impI)
  assume "at_end s = Exhausted \<or> nat (part_size ses) \<le> length (delivered (script s))"
  with read_chunk_clean [OF assms(2), of "part_size ses" 0 "[]"]
  obtain s' where "read_chunk (part_size ses) 0 [] s =
        Some (Inr (take (nat (part_size ses)) (delivered (script s))), s')"
    "delivered (script s') = drop (nat (part_size ses)) (delivered (script s))"
    "clean (script s')" "at_end s' = at_end s"
    by auto
  with assms(1) show "\<exists>s'. get_next_part ses e =
                   Some (Inr \<lparr>offset = int (length (part_array e)) * part_size ses,
                              chunk = take (nat (part_size ses)) (delivered (script s)),
                              total_size = file_size e\<rparr>,
                         e\<lparr>content_stream := Some s'\<rparr>) \<and>
                 delivered (script s') = drop (nat (part_size ses)) (delivered (script s)) \<and>
                 clean (script s') \<and> at_end s' = at_end s"
    by (intro exI [of _ s']) (simp add: get_next_part_def)
next
  assume "at_end s = Blocked \<and> length (delivered (script s)) < nat (part_size ses)"
  with read_chunk_blocked [OF assms(2), of "part_size ses" 0 "[]"]
  have "read_chunk (part_size ses) 0 [] s = None" by simp
  with assms(1) show "get_next_part ses e = None" by (simp add: get_next_part_def)
qed

theorem chunk_assembly_waits_for_bytes_or_end_witness:
  "content_stream (init demo_stream 6) = Some demo_stream \<and> clean (script demo_stream) \<and>
   at_end demo_stream = Exhausted \<and>
   get_next_part (test_session 2 4) (init demo_stream 6) =
     Some (Inr \<lparr>offset = 0, chunk = [1, 2, 3, 4], total_size = 6\<rparr>,
           (init demo_stream 6)
             \<lparr>content_stream := Some \<lparr>script = [Data [5], Data [6]], at_end = Exhausted\<rparr>\<rparr>) \<and>
   get_next_part (test_session 2 4) (init (demo_stream\<lparr>script := [Data [1, 2, 3], NotReady], at_end := Blocked\<rparr>) 6) = None"
proof -
  have 1: "content_stream (init demo_stream 6) = Some demo_stream" by (simp add: init_def)
  have 2: "clean (script demo_stream)" by (simp add: demo_stream_def)
  have 3: "at_end demo_stream = Exhausted" by (simp add: demo_stream_def)
  have 4: "content_stream (init (demo_stream\<lparr>script := [Data [1, 2, 3], NotReady], at_end := Blocked\<rparr>) 6) =
      Some (demo_stream\<lparr>script := [Data [1, 2, 3], NotReady], at_end := Blocked\<rparr>)"
    by (simp add: init_def)
  have 5: "clean (script (demo_stream\<lparr>script := [Data [1, 2, 3], NotReady], at_end := Blocked\<rparr>))"
    by simp
  have a: "get_next_part (test_session 2 4) (init demo_stream 6) =
     Some (Inr \<lparr>offset = 0, chunk = [1, 2, 3, 4], total_size = 6\<rparr>,
           (init demo_stream 6)
             \<lparr>content_stream := Some \<lparr>script = [Data [5], Data [6]], at_end = Exhausted\<rparr>\<rparr>)"
    by (simp add: get_next_part_def init_def demo_stream_def test_session_def read_chunk.simps)
  from chunk_assembly_waits_for_bytes_or_end [OF 4 5, of "test_session 2 4"]
  have b: "get_next_part (test_session 2 4) (init (demo_stream\<lparr>script := [Data [1, 2, 3], NotReady], at_end := Blocked\<rparr>) 6) = None"
    by (simp add: test_session_def)
  from 1 2 3 a b show ?thesis by simp
qed

subsection \<open>The upload loop\<close>

lemma upload_unfold:
  "upload ses e w =
     (if int (length (part_array e)) < total_parts ses then
        (case upload_iteration ses e w of
           None \<Rightarrow> None
         | Some (Some err, e', w') \<Rightarrow> Some (Some err, e', w')
         | Some (None, e', w') \<Rightarrow> upload ses e' w')
      else Some (None, e, w))"
  by (subst upload.simps)
    (simp add: upload_iteration_def record_part_def Let_def
      split: option.splits sum.splits prod.splits)

lemma sha1_updates_append: "sha1_updates (a @ b) = sha1_updates a @ sha1_updates b"
  by (induction a rule: sha1_updates.induct) simp_all

lemma upload_calls_append: "upload_calls (a @ b) = upload_calls a @ upload_calls b"
  by (induction a rule: upload_calls.induct) simp_all

lemma get_next_part_clean:
  assumes "content_stream e = Some s" and "clean (script s)" and "at_end s = Exhausted"
  shows "\<exists>s'. get_next_part ses e =
            Some (Inr \<lparr>offset = int (length (part_array e)) * part_size ses,
                       chunk = take (nat (part_size ses)) (delivered (script s)),
                       total_size = file_size e\<rparr>,
                  e\<lparr>content_stream := Some s'\<rparr>) \<and>
          delivered (script s') = drop (nat (part_size ses)) (delivered (script s)) \<and>
          clean (script s') \<and> at_end s' = Exhausted"
proof -
  from read_chunk_clean [OF assms(2), of "part_size ses" 0 "[]"] assms(3)
  obtain s' where r: "read_chunk (part_size ses) 0 [] s =
        Some (Inr (take (nat (part_size ses)) (delivered (script s))), s')"
    and s': "delivered (script s') = drop (nat (part_size ses)) (delivered (script s))"
      "clean (script s')" "at_end s' = Exhausted"
    by auto
  from r assms(1) have "get_next_part ses e =
            Some (Inr \<lparr>offset = int (length (part_array e)) * part_size ses,
                       chunk = take (nat (part_size ses)) (delivered (script s)),
                       total_size = file_size e\<rparr>,
                  e\<lparr>content_stream := Some s'\<rparr>)"
    by (simp add: get_next_part_def)
  with s' show ?thesis by blast
qed

lemma upload_iteration_done:
  assumes it: "upload_iteration ses e w = Some (None, e1, w1)"
    and cs: "content_stream e = Some s" and cl: "clean (script s)"
    and ex: "at_end s = Exhausted" and nf: "inflight_part e = None"
  shows "\<exists>s' p.
      content_stream e1 = Some s' \<and>
      delivered (script s') = drop (nat (part_size ses)) (delivered (script s)) \<and>
      clean (script s') \<and> at_end s' = Exhausted \<and>
      inflight_part e1 = None \<and>
      part_array e1 = part_array e @ [p] \<and>
      sha1 e1 = sha1 e @ take (nat (part_size ses)) (delivered (script s)) \<and>
      file_size e1 = file_size e \<and>
      part_definitions e1 =
        AList.update (int (length (part_array e)) * part_size ses) p (part_definitions e) \<and>
      (case map_of (part_definitions e) (int (length (part_array e)) * part_size ses) of
         Some cached \<Rightarrow>
           p = cached \<and> server w1 = server w \<and>
           trace w1 = trace w @
             [Sha1Update (int (length (part_array e)) * part_size ses)
                (take (nat (part_size ses)) (delivered (script s)))]
       | None \<Rightarrow>
           upload_part_bytes ses (take (nat (part_size ses)) (delivered (script s)))
             (int (length (part_array e)) * part_size ses) (file_size e) (server w) =
             (Inr p, server w1) \<and>
           trace w1 = trace w @
             [Sha1Update (int (length (part_array e)) * part_size ses)
                (take (nat (part_size ses)) (delivered (script s))),
              UploadPartBytes (take (nat (part_size ses)) (delivered (script s)))
                (int (length (part_array e)) * part_size ses) (file_size e)])"
proof -
  from get_next_part_clean [OF cs cl ex, of ses]
  obtain s' where g: "get_next_part ses e =
            Some (Inr \<lparr>offset = int (length (part_array e)) * part_size ses,
                       chunk = take (nat (part_size ses)) (delivered (script s)),
                       total_size = file_size e\<rparr>,
                  e\<lparr>content_stream := Some s'\<rparr>)"
    and s': "delivered (script s') = drop (nat (part_size ses)) (delivered (script s))"
      "clean (script s')" "at_end s' = Exhausted"
    by blast
  show ?thesis
  proof (cases "map_of (part_definitions e) (int (length (part_array e)) * part_size ses)")
    case None
    with it g nf s' show ?thesis
      by (cases "upload_part_bytes ses (take (nat (part_size ses)) (delivered (script s)))
             (int (length (part_array e)) * part_size ses) (file_size e) (server w)")
        (auto simp: upload_iteration_def record_part_def InflightPart_upload_def Let_def
          split: sum.splits)
  next
    case (Some cached)
    with it g nf s' show ?thesis
      by (auto simp: upload_iteration_def record_part_def Let_def)
  qed
qed

lemma upload_finished:
  "\<not> int (length (part_array e)) < total_parts ses \<Longrightarrow> upload ses e w = Some (None, e, w)"
  by (subst upload_unfold) simp

lemma upload_completed_step:
  assumes "int (length (part_array e)) < total_parts ses"
    and "upload ses e w = Some (None, e', w')"
  shows "\<exists>e1 w1. upload_iteration ses e w = Some (None, e1, w1) \<and>
           upload ses e1 w1 = Some (None, e', w')"
proof (cases "upload_iteration ses e w")
  case None
  with assms show ?thesis by (subst (asm) upload_unfold) simp
next
  case (Some r)
  obtain x e1 w1 where r: "r = (x, e1, w1)" by (cases r) auto
  show ?thesis
  proof (cases x)
    case None
    with assms Some r show ?thesis by (subst (asm) upload_unfold) simp
  next
    case (Some err)
    with assms \<open>upload_iteration ses e w = Some r\<close> r show ?thesis
      by (subst (asm) upload_unfold) simp
  qed
qed

lemma upload_hashes_stream:
  assumes "n = nat (total_parts ses - int (length (part_array e)))"
    and "upload ses e w = Some (None, e', w')"
    and "content_stream e = Some s" and "clean (script s)" and "at_end s = Exhausted"
    and "inflight_part e = None"
  shows "sha1 e' = sha1 e @ take (n * nat (part_size ses)) (delivered (script s)) \<and>
         sha1_updates (trace w') =
           sha1_updates (trace w) @
             map (\<lambda>i. (int (length (part_array e) + i) * part_size ses,
                        take (nat (part_size ses))
                          (drop (i * nat (part_size ses)) (delivered (script s)))))
               [0..<n] \<and>
         length (part_array e') = length (part_array e) + n \<and>
         take (length (part_array e)) (part_array e') = part_array e \<and>
         inflight_part e' = None"
  using assms
proof (induction n arbitrary: e w s)
  case 0
  then have "\<not> int (length (part_array e)) < total_parts ses" by simp
  from upload_finished [OF this, of w] "0.prems"(2) have "e' = e" "w' = w" by simp_all
  with "0.prems" show ?case by simp
next
  case (Suc n)
  let ?P = "nat (part_size ses)" and ?D = "delivered (script s)"
  let ?k = "length (part_array e)"
  from Suc.prems(1) have lt: "int ?k < total_parts ses" by simp
  from upload_completed_step [OF lt Suc.prems(2)]
  obtain e1 w1 where it: "upload_iteration ses e w = Some (None, e1, w1)"
    and up: "upload ses e1 w1 = Some (None, e', w')" by blast
  from upload_iteration_done [OF it Suc.prems(3,4,5,6)]
  obtain s' p where
    cs: "content_stream e1 = Some s'" and d: "delivered (script s') = drop ?P ?D"
    and cl: "clean (script s')" and ex: "at_end s' = Exhausted"
    and nf: "inflight_part e1 = None" and pa: "part_array e1 = part_array e @ [p]"
    and sh: "sha1 e1 = sha1 e @ take ?P ?D"
    and tr: "case map_of (part_definitions e) (int ?k * part_size ses) of
         Some cached \<Rightarrow>
           p = cached \<and> server w1 = server w \<and>
           trace w1 = trace w @ [Sha1Update (int ?k * part_size ses) (take ?P ?D)]
       | None \<Rightarrow>
           upload_part_bytes ses (take ?P ?D) (int ?k * part_size ses) (file_size e) (server w) =
             (Inr p, server w1) \<and>
           trace w1 = trace w @
             [Sha1Update (int ?k * part_size ses) (take ?P ?D),
              UploadPartBytes (take ?P ?D) (int ?k * part_size ses) (file_size e)]"
    by blast
  from tr have su: "sha1_updates (trace w1) =
      sha1_updates (trace w) @ [(int ?k * part_size ses, take ?P ?D)]"
    by (auto simp: sha1_updates_append split: option.splits)
  from Suc.prems(1) pa have n: "n = nat (total_parts ses - int (length (part_array e1)))"
    by simp
  from Suc.IH [OF n up cs cl ex nf]
  have ih: "sha1 e' = sha1 e1 @ take (n * ?P) (delivered (script s'))"
    "sha1_updates (trace w') =
           sha1_updates (trace w1) @
             map (\<lambda>i. (int (length (part_array e1) + i) * part_size ses,
                        take ?P (drop (i * ?P) (delivered (script s')))))
               [0..<n]"
    "length (part_array e') = length (part_array e1) + n"
    "take (length (part_array e1)) (part_array e') = part_array e1"
    "inflight_part e' = None"
    by simp_all
  have 1: "sha1 e' = sha1 e @ take (Suc n * ?P) ?D"
    using ih(1) sh d by (simp add: take_add)
  have 2: "sha1_updates (trace w') =
           sha1_updates (trace w) @
             map (\<lambda>i. (int (?k + i) * part_size ses, take ?P (drop (i * ?P) ?D)))
               [0..<Suc n]"
    using ih(2) su d pa
    by (simp only: map_upt_Suc) (simp add: add.commute)
  have 3: "length (part_array e') = ?k + Suc n" using ih(3) pa by simp
  have "take ?k (part_array e') = take ?k (take (length (part_array e1)) (part_array e'))"
    using pa by (simp add: min_def)
  also have "\<dots> = part_array e" using ih(4) pa by simp
  finally have 4: "take ?k (part_array e') = part_array e" .
  from 1 2 3 4 ih(5) show ?case by blast
qed

lemma get_next_part_returns:
  assumes "content_stream e = Some s" and "at_end s = Exhausted"
  shows "\<exists>r s1. get_next_part ses e = Some (r, e\<lparr>content_stream := Some s1\<rparr>) \<and>
           at_end s1 = Exhausted \<and>
           (no_read_error (script s) \<longrightarrow>
              no_read_error (script s1) \<and>
              (\<exists>c. r = Inr \<lparr>offset = int (length (part_array e)) * part_size ses, chunk = c,
                              total_size = file_size e\<rparr>))"
proof -
  from read_chunk_returns [OF assms(2), of "part_size ses" 0 "[]"]
  obtain r s1 where r: "read_chunk (part_size ses) 0 [] s = Some (r, s1)"
    and e: "at_end s1 = Exhausted"
    and n: "no_read_error (script s) \<longrightarrow> (\<exists>c. r = Inr c) \<and> no_read_error (script s1)"
    by blast
  show ?thesis
  proof (cases r)
    case (Inl err)
    with r e n assms(1) show ?thesis by (auto simp: get_next_part_def)
  next
    case (Inr c)
    with r e n assms(1) show ?thesis by (auto simp: get_next_part_def)
  qed
qed

lemma upload_iteration_after_part:
  "(case inflight_part e of Some p \<Rightarrow> Some (Inr p, e) | None \<Rightarrow> get_next_part ses e) =
     Some (Inr np, e1) \<Longrightarrow>
   \<exists>x e2 w2. upload_iteration ses e w = Some (x, e2, w2) \<and>
     content_stream e2 = content_stream e1 \<and>
     (x = None \<longrightarrow>
        (\<exists>p. part_array e2 = part_array e1 @ [p]) \<and>
        (\<exists>u. sha1_updates (trace w2) = sha1_updates (trace w) @ [u])) \<and>
     (never_raises ses \<longrightarrow> x = None)"
proof -
  assume a: "(case inflight_part e of Some p \<Rightarrow> Some (Inr p, e) | None \<Rightarrow> get_next_part ses e) =
     Some (Inr np, e1)"
  show ?thesis
  proof (cases "map_of (part_definitions e1) (offset np)")
    case (Some cached)
    with a show ?thesis
      by (simp add: upload_iteration_def record_part_def Let_def sha1_updates_append)
  next
    case None
    show ?thesis
    proof (cases "upload_part_bytes ses (chunk np) (offset np) (total_size np) (server w)")
      case (Pair r sv')
      show ?thesis
      proof (cases r)
        case (Inl err)
        have "\<not> never_raises ses"
        proof
          assume "never_raises ses"
          then obtain p sv'' where
            "upload_part_bytes ses (chunk np) (offset np) (total_size np) (server w) = (Inr p, sv'')"
            unfolding never_raises_def by blast
          with Pair Inl show False by simp
        qed
        with a None Pair Inl show ?thesis
          by (simp add: upload_iteration_def InflightPart_upload_def Let_def)
      next
        case (Inr p)
        with a None Pair show ?thesis
          by (simp add: upload_iteration_def InflightPart_upload_def record_part_def Let_def
              sha1_updates_append)
      qed
    qed
  qed
qed

lemma upload_iteration_returns:
  assumes cs: "content_stream e = Some s" and ex: "at_end s = Exhausted"
  shows "\<exists>x e1 w1 s1. upload_iteration ses e w = Some (x, e1, w1) \<and>
           content_stream e1 = Some s1 \<and> at_end s1 = Exhausted \<and>
           (x = None \<longrightarrow>
              (\<exists>p. part_array e1 = part_array e @ [p]) \<and>
              (\<exists>u. sha1_updates (trace w1) = sha1_updates (trace w) @ [u])) \<and>
           (no_read_error (script s) \<longrightarrow>
              no_read_error (script s1) \<and> (never_raises ses \<longrightarrow> x = None))"
proof (cases "inflight_part e")
  case (Some p)
  then have "(case inflight_part e of Some p \<Rightarrow> Some (Inr p, e) | None \<Rightarrow> get_next_part ses e) =
     Some (Inr p, e)" by simp
  from upload_iteration_after_part [OF this, of w] cs ex show ?thesis by fastforce
next
  case None
  from get_next_part_returns [OF cs ex, of ses]
  obtain r s1 where g: "get_next_part ses e = Some (r, e\<lparr>content_stream := Some s1\<rparr>)"
    and e1: "at_end s1 = Exhausted"
    and n: "no_read_error (script s) \<longrightarrow>
              no_read_error (script s1) \<and>
              (\<exists>c. r = Inr \<lparr>offset = int (length (part_array e)) * part_size ses, chunk = c,
                              total_size = file_size e\<rparr>)"
    by blast
  show ?thesis
  proof (cases r)
    case (Inl err)
    with g None have "upload_iteration ses e w = Some (Some err, e\<lparr>content_stream := Some s1\<rparr>, w)"
      by (simp add: upload_iteration_def)
    with e1 n Inl show ?thesis by auto
  next
    case (Inr np)
    with g None have "(case inflight_part e of Some p \<Rightarrow> Some (Inr p, e)
        | None \<Rightarrow> get_next_part ses e) = Some (Inr np, e\<lparr>content_stream := Some s1\<rparr>)"
      by simp
    from upload_iteration_after_part [OF this, of w]
    obtain x e2 w2 where "upload_iteration ses e w = Some (x, e2, w2)"
      "content_stream e2 = Some s1"
      "x = None \<longrightarrow>
        (\<exists>p. part_array e2 = part_array e @ [p]) \<and>
        (\<exists>u. sha1_updates (trace w2) = sha1_updates (trace w) @ [u])"
      "never_raises ses \<longrightarrow> x = None"
      by auto
    with e1 n show ?thesis by blast
  qed
qed

lemma upload_returns:
  assumes "n = nat (total_parts ses - int (length (part_array e)))"
    and "content_stream e = Some s" and "at_end s = Exhausted"
  shows "\<exists>x e' w'. upload ses e w = Some (x, e', w') \<and>
           (x = None \<longrightarrow>
              length (part_array e') = length (part_array e) + n \<and>
              length (sha1_updates (trace w')) = length (sha1_updates (trace w)) + n) \<and>
           (no_read_error (script s) \<and> never_raises ses \<longrightarrow> x = None)"
  using assms
proof (induction n arbitrary: e w s)
  case 0
  then have "\<not> int (length (part_array e)) < total_parts ses" by simp
  from upload_finished [OF this, of w] show ?case by simp
next
  case (Suc n)
  from Suc.prems(1) have lt: "int (length (part_array e)) < total_parts ses" by simp
  from upload_iteration_returns [OF Suc.prems(2,3), of ses w]
  obtain x e1 w1 s1 where it: "upload_iteration ses e w = Some (x, e1, w1)"
    and cs: "content_stream e1 = Some s1" and ex: "at_end s1 = Exhausted"
    and ok: "x = None \<longrightarrow>
              (\<exists>p. part_array e1 = part_array e @ [p]) \<and>
              (\<exists>u. sha1_updates (trace w1) = sha1_updates (trace w) @ [u])"
    and nr: "no_read_error (script s) \<longrightarrow>
              no_read_error (script s1) \<and> (never_raises ses \<longrightarrow> x = None)"
    by blast
  show ?case
  proof (cases x)
    case (Some err)
    with it lt have "upload ses e w = Some (Some err, e1, w1)"
      by (subst upload_unfold) simp
    with Some nr show ?thesis by auto
  next
    case None
    with ok obtain p u where pa: "part_array e1 = part_array e @ [p]"
      and su: "sha1_updates (trace w1) = sha1_updates (trace w) @ [u]" by blast
    from Suc.prems(1) pa have n: "n = nat (total_parts ses - int (length (part_array e1)))"
      by simp
    from Suc.IH [OF n cs ex, of w1]
    obtain x' e' w' where up: "upload ses e1 w1 = Some (x', e', w')"
      and c: "x' = None \<longrightarrow>
              length (part_array e') = length (part_array e1) + n \<and>
              length (sha1_updates (trace w')) = length (sha1_updates (trace w1)) + n"
      and r: "no_read_error (script s1) \<and> never_raises ses \<longrightarrow> x' = None"
      by blast
    from it lt None up have "upload ses e w = Some (x', e', w')"
      by (subst upload_unfold) simp
    with c r nr pa su show ?thesis by auto
  qed
qed

lemma never_raises_echo_session: "never_raises (echo_session n psize)"
  by (simp add: never_raises_def echo_session_def)

text \<open>
  Claim C10. When every read of the stream eventually returns something other than
  \<^verbatim>\<open>None\<close> (the stream is not blocked at its end), the upload loop returns, by an exception
  or normally. When it returns normally it has made exactly \<^verbatim>\<open>total_parts\<close> minus the
  initial number of committed parts iterations: that many records were appended, one per
  iteration, and that many chunks were hashed. When in addition no read raises and no
  upload raises, it does return normally, however few bytes the stream delivers: the
  chunks past the end are short or empty, and are hashed and uploaded all the same.
\<close>

theorem upload_loop_terminates:
  assumes "content_stream e = Some s" and "at_end s = Exhausted"
  shows "\<exists>x e' w'. upload ses e w = Some (x, e', w') \<and>
           (x = None \<longrightarrow>
              length (part_array e') =
                length (part_array e) + nat (total_parts ses - int (length (part_array e))) \<and>
              length (sha1_updates (trace w')) =
                length (sha1_updates (trace w)) +
                  nat (total_parts ses - int (length (part_array e)))) \<and>
           (no_read_error (script s) \<and> never_raises ses \<longrightarrow> x = None)"
  using upload_returns [OF refl assms] .

theorem upload_loop_terminates_witness:
  "content_stream (init short_stream 6) = Some short_stream \<and>
   at_end short_stream = Exhausted \<and> no_read_error (script short_stream) \<and>
   never_raises (echo_session 3 2) \<and>
   map_option (\<lambda>r. (fst r, part_array (fst (snd r)), trace (snd (snd r))))
     (upload (echo_session 3 2) (init short_stream 6) \<lparr>server = [], trace = []\<rparr>) =
     Some (None,
           [demo_part 0 [1, 2], demo_part 2 [3], demo_part 4 []],
           [Sha1Update 0 [1, 2], UploadPartBytes [1, 2] 0 6,
            Sha1Update 2 [3], UploadPartBytes [3] 2 6,
            Sha1Update 4 [], UploadPartBytes [] 4 6])"
proof -
  have 1: "content_stream (init short_stream 6) = Some short_stream" by (simp add: init_def)
  have 2: "at_end short_stream = Exhausted" by (simp add: short_stream_def)
  have 3: "no_read_error (script short_stream)" by (simp add: short_stream_def)
  have 4: "never_raises (echo_session 3 2)" by (rule never_raises_echo_session)
  have 5: "map_option (\<lambda>r. (fst r, part_array (fst (snd r)), trace (snd (snd r))))
     (upload (echo_session 3 2) (init short_stream 6) \<lparr>server = [], trace = []\<rparr>) =
     Some (None,
           [demo_part 0 [1, 2], demo_part 2 [3], demo_part 4 []],
           [Sha1Update 0 [1, 2], UploadPartBytes [1, 2] 0 6,
            Sha1Update 2 [3], UploadPartBytes [3] 2 6,
            Sha1Update 4 [], UploadPartBytes [] 4 6])"
    by code_simp
  from upload_loop_terminates [OF 1 2, of "echo_session 3 2" "\<lparr>server = [], trace = []\<rparr>"] 1 2 3 4 5
  show ?thesis by simp
qed

subsection \<open>A whole upload\<close>

lemma echoes_never_raises: "echoes ses \<Longrightarrow> never_raises ses"
  unfolding echoes_def never_raises_def by blast

lemma clean_no_read_error: "clean es \<Longrightarrow> no_read_error es"
  by (induction es rule: clean.induct) simp_all

lemma upload_fresh_parts:
  assumes "n = nat (total_parts ses - int (length (part_array e)))"
    and "content_stream e = Some s" and "clean (script s)" and "at_end s = Exhausted"
    and "inflight_part e = None" and "0 < part_size ses" and "echoes ses"
    and "\<forall>off. int (length (part_array e)) * part_size ses \<le> off \<longrightarrow>
           map_of (part_definitions e) off = None"
  shows "\<exists>e' w'. upload ses e w = Some (None, e', w') \<and>
           (\<forall>i<n. part_offset (part_array e' ! (length (part_array e) + i)) =
                     int (length (part_array e) + i) * part_size ses \<and>
                   part_len (part_array e' ! (length (part_array e) + i)) =
                     int (length (take (nat (part_size ses))
                       (drop (i * nat (part_size ses)) (delivered (script s)))))) \<and>
           upload_calls (trace w') =
             upload_calls (trace w) @
               map (\<lambda>i. (take (nat (part_size ses))
                            (drop (i * nat (part_size ses)) (delivered (script s))),
                          int (length (part_array e) + i) * part_size ses, file_size e))
                 [0..<n]"
  using assms
proof (induction n arbitrary: e w s)
  case 0
  then have "\<not> int (length (part_array e)) < total_parts ses" by simp
  from upload_finished [OF this, of w] show ?case by simp
next
  case (Suc n)
  let ?P = "nat (part_size ses)" and ?D = "delivered (script s)"
  let ?k = "length (part_array e)"
  let ?off = "int ?k * part_size ses"
  from Suc.prems(1) have lt: "int ?k < total_parts ses" by simp
  from Suc.prems(8) have nc: "map_of (part_definitions e) ?off = None" by simp
  from upload_iteration_returns [OF Suc.prems(2,4), of ses w]
    clean_no_read_error [OF Suc.prems(3)] echoes_never_raises [OF Suc.prems(7)]
  obtain e1 w1 where it: "upload_iteration ses e w = Some (None, e1, w1)" by blast
  from upload_iteration_done [OF it Suc.prems(2,3,4,5)] nc
  obtain s' p where
    cs: "content_stream e1 = Some s'" and d: "delivered (script s') = drop ?P ?D"
    and cl: "clean (script s')" and ex: "at_end s' = Exhausted"
    and nf: "inflight_part e1 = None" and pa: "part_array e1 = part_array e @ [p]"
    and fs: "file_size e1 = file_size e"
    and pd: "part_definitions e1 = AList.update ?off p (part_definitions e)"
    and ub: "upload_part_bytes ses (take ?P ?D) ?off (file_size e) (server w) = (Inr p, server w1)"
    and tr: "trace w1 = trace w @ [Sha1Update ?off (take ?P ?D),
              UploadPartBytes (take ?P ?D) ?off (file_size e)]"
    by auto
  from Suc.prems(7) ub have p: "part_offset p = ?off" "part_len p = int (length (take ?P ?D))"
    unfolding echoes_def by (metis Pair_inject sum.inject(2))+
  from Suc.prems(1) pa have n: "n = nat (total_parts ses - int (length (part_array e1)))"
    by simp
  have nc1: "\<forall>off. int (length (part_array e1)) * part_size ses \<le> off \<longrightarrow>
           map_of (part_definitions e1) off = None"
  proof (intro allI impI)
    fix off assume a: "int (length (part_array e1)) * part_size ses \<le> off"
    with pa Suc.prems(6) have "?off < off" by (simp add: distrib_right)
    with Suc.prems(8) pd show "map_of (part_definitions e1) off = None"
      by (simp add: update_conv')
  qed
  from Suc.IH [OF n cs cl ex nf Suc.prems(6,7) nc1, of w1]
  obtain e' w' where up: "upload ses e1 w1 = Some (None, e', w')"
    and ih: "\<forall>i<n. part_offset (part_array e' ! (length (part_array e1) + i)) =
                     int (length (part_array e1) + i) * part_size ses \<and>
                   part_len (part_array e' ! (length (part_array e1) + i)) =
                     int (length (take ?P (drop (i * ?P) (delivered (script s')))))"
    and uc: "upload_calls (trace w') =
             upload_calls (trace w1) @
               map (\<lambda>i. (take ?P (drop (i * ?P) (delivered (script s'))),
                          int (length (part_array e1) + i) * part_size ses, file_size e1))
                 [0..<n]"
    by blast
  from it lt up have u: "upload ses e w = Some (None, e', w')"
    by (subst upload_unfold) simp
  from upload_hashes_stream [OF n up cs cl ex nf]
  have tk: "take (length (part_array e1)) (part_array e') = part_array e1"
    and len: "length (part_array e') = length (part_array e1) + n" by simp_all
  have k: "part_array e' ! ?k = p"
  proof -
    have "part_array e' ! ?k = take (length (part_array e1)) (part_array e') ! ?k"
      using pa by simp
    also have "\<dots> = p" using tk pa by simp
    finally show ?thesis .
  qed
  have parts: "\<forall>i<Suc n. part_offset (part_array e' ! (?k + i)) = int (?k + i) * part_size ses \<and>
                   part_len (part_array e' ! (?k + i)) =
                     int (length (take ?P (drop (i * ?P) ?D)))"
  proof (intro allI impI)
    fix i assume "i < Suc n"
    show "part_offset (part_array e' ! (?k + i)) = int (?k + i) * part_size ses \<and>
                   part_len (part_array e' ! (?k + i)) =
                     int (length (take ?P (drop (i * ?P) ?D)))"
    proof (cases i)
      case 0
      with k p show ?thesis by simp
    next
      case (Suc j)
      with \<open>i < Suc n\<close> have "j < n" by simp
      with ih have "part_offset (part_array e' ! (length (part_array e1) + j)) =
                     int (length (part_array e1) + j) * part_size ses \<and>
                   part_len (part_array e' ! (length (part_array e1) + j)) =
                     int (length (take ?P (drop (j * ?P) (delivered (script s')))))"
        by blast
      with Suc pa d show ?thesis by (simp add: add.commute)
    qed
  qed
  have calls: "upload_calls (trace w') =
             upload_calls (trace w) @
               map (\<lambda>i. (take ?P (drop (i * ?P) ?D), int (?k + i) * part_size ses, file_size e))
                 [0..<Suc n]"
    using uc tr d pa fs
    by (simp only: map_upt_Suc) (simp add: upload_calls_append add.commute)
  from u parts calls show ?case by blast
qed

lemma ceil_div_gt:
  assumes "0 < (p::int)" and "i < (f + p - 1) div p"
  shows "i * p < f"
proof -
  let ?q = "(f + p - 1) div p"
  have "f + p - 1 = ?q * p + (f + p - 1) mod p" by simp
  moreover have "0 \<le> (f + p - 1) mod p" using assms(1) by simp
  ultimately have "?q * p \<le> f + p - 1" by linarith
  moreover from assms have "(i + 1) * p \<le> ?q * p" by (intro mult_right_mono) simp_all
  ultimately show ?thesis by (simp add: distrib_right)
qed

lemma ceil_div_le:
  assumes "0 < (p::int)"
  shows "f \<le> ((f + p - 1) div p) * p"
proof -
  let ?q = "(f + p - 1) div p"
  have "f + p - 1 = ?q * p + (f + p - 1) mod p" by simp
  moreover have "(f + p - 1) mod p < p" using assms by simp
  ultimately show ?thesis by linarith
qed

lemma chunk_length:
  assumes "0 < (p::int)" and "int i * p < int (length D)"
  shows "int (length (take (nat p) (drop (i * nat p) D))) = min p (int (length D) - int i * p)"
proof -
  from assms have "int (i * nat p) < int (length D)" by simp
  then have "i * nat p < length D" by linarith
  then have "int (length D - i * nat p) = int (length D) - int i * p"
    using assms(1) by (simp add: of_nat_diff)
  moreover have "length (take (nat p) (drop (i * nat p) D)) = min (nat p) (length D - i * nat p)"
    by (simp add: min_def)
  ultimately show ?thesis using assms(1) by linarith
qed

lemma echoes_echo_session: "echoes (echo_session n psize)"
  by (simp add: echoes_def echo_session_def demo_part_def)

lemma upload_fresh_records:
  assumes "n = nat (total_parts ses - int (length (part_array e)))"
    and "upload ses e w = Some (None, e', w')"
    and "content_stream e = Some s" and "clean (script s)" and "at_end s = Exhausted"
    and "inflight_part e = None" and "0 < part_size ses" and "records_the_range ses"
    and "\<forall>off. int (length (part_array e)) * part_size ses \<le> off \<longrightarrow>
           map_of (part_definitions e) off = None"
  shows "\<forall>i<n. part_offset (part_array e' ! (length (part_array e) + i)) =
                     int (length (part_array e) + i) * part_size ses \<and>
                   part_len (part_array e' ! (length (part_array e) + i)) =
                     int (length (take (nat (part_size ses))
                       (drop (i * nat (part_size ses)) (delivered (script s)))))"
  using assms
proof (induction n arbitrary: e w s)
  case 0
  show ?case by simp
next
  case (Suc n)
  let ?P = "nat (part_size ses)" and ?D = "delivered (script s)"
  let ?k = "length (part_array e)"
  let ?off = "int ?k * part_size ses"
  from Suc.prems(1) have lt: "int ?k < total_parts ses" by simp
  from Suc.prems(9) have nc: "map_of (part_definitions e) ?off = None" by simp
  from upload_completed_step [OF lt Suc.prems(2)]
  obtain e1 w1 where it: "upload_iteration ses e w = Some (None, e1, w1)"
    and up: "upload ses e1 w1 = Some (None, e', w')" by blast
  from upload_iteration_done [OF it Suc.prems(3,4,5,6)] nc
  obtain s' p where
    cs: "content_stream e1 = Some s'" and d: "delivered (script s') = drop ?P ?D"
    and cl: "clean (script s')" and ex: "at_end s' = Exhausted"
    and nf: "inflight_part e1 = None" and pa: "part_array e1 = part_array e @ [p]"
    and pd: "part_definitions e1 = AList.update ?off p (part_definitions e)"
    and ub: "upload_part_bytes ses (take ?P ?D) ?off (file_size e) (server w) = (Inr p, server w1)"
    by auto
  from Suc.prems(8) ub have p: "part_offset p = ?off" "part_len p = int (length (take ?P ?D))"
    unfolding records_the_range_def by blast+
  from Suc.prems(1) pa have n: "n = nat (total_parts ses - int (length (part_array e1)))"
    by simp
  have nc1: "\<forall>off. int (length (part_array e1)) * part_size ses \<le> off \<longrightarrow>
           map_of (part_definitions e1) off = None"
  proof (intro allI impI)
    fix off assume a: "int (length (part_array e1)) * part_size ses \<le> off"
    with pa Suc.prems(7) have "?off < off" by (simp add: distrib_right)
    with Suc.prems(9) pd show "map_of (part_definitions e1) off = None"
      by (simp add: update_conv')
  qed
  from Suc.IH [OF n up cs cl ex nf Suc.prems(7,8) nc1]
  have ih: "\<forall>i<n. part_offset (part_array e' ! (length (part_array e1) + i)) =
                     int (length (part_array e1) + i) * part_size ses \<and>
                   part_len (part_array e' ! (length (part_array e1) + i)) =
                     int (length (take ?P (drop (i * ?P) (delivered (script s')))))" .
  from upload_hashes_stream [OF n up cs cl ex nf]
  have tk: "take (length (part_array e1)) (part_array e') = part_array e1" by simp
  have k: "part_array e' ! ?k = p"
  proof -
    have "part_array e' ! ?k = take (length (part_array e1)) (part_array e') ! ?k"
      using pa by simp
    also have "\<dots> = p" using tk pa by simp
    finally show ?thesis .
  qed
  show ?case
  proof (intro allI impI)
    fix i assume "i < Suc n"
    show "part_offset (part_array e' ! (?k + i)) = int (?k + i) * part_size ses \<and>
                   part_len (part_array e' ! (?k + i)) =
                     int (length (take ?P (drop (i * ?P) ?D)))"
    proof (cases i)
      case 0
      with k p show ?thesis by simp
    next
      case (Suc j)
      with \<open>i < Suc n\<close> have "j < n" by simp
      with ih have "part_offset (part_array e' ! (length (part_array e1) + j)) =
                     int (length (part_array e1) + j) * part_size ses \<and>
                   part_len (part_array e' ! (length (part_array e1) + j)) =
                     int (length (take ?P (drop (j * ?P) (delivered (script s')))))"
        by blast
      with Suc pa d show ?thesis by (simp add: add.commute)
    qed
  qed
qed

lemma records_the_range_test_session: "records_the_range (test_session n psize)"
  by (auto simp: records_the_range_def test_session_def test_upload_def split: if_splits)

text \<open>
  Claim C6. Take a session whose uploads, when they return, return the record of the range
  they were given; they may raise. \<^verbatim>\<open>start\<close> on a new engine, with a stream that delivers
  exactly \<^verbatim>\<open>file_size\<close> bytes and \<^verbatim>\<open>total_parts\<close> the ceiling of \<^verbatim>\<open>file_size / part_size\<close>,
  returns or raises. When it returns the file, the commit that returned it was its last
  call, with the hash of the whole content and with exactly \<^verbatim>\<open>total_parts\<close> records: the
  record \<open>i\<close> has the offset \<open>i * part_size\<close> and a positive size, every record but the last
  has the size \<^verbatim>\<open>part_size\<close> and ends where the next begins, and the last ends at
  \<^verbatim>\<open>file_size\<close>. The records cover the file without a gap or an overlap.
\<close>

theorem start_commits_every_part_once:
  assumes cl: "clean (script cs)" and ex: "at_end cs = Exhausted"
    and len: "int (length (delivered (script cs))) = fsize"
    and ps: "0 < part_size ses"
    and tp: "total_parts ses = (fsize + part_size ses - 1) div part_size ses"
    and ct: "records_the_range ses"
  shows "(\<exists>r e' w'. start ses (init cs fsize) w = Some (r, e', w')) \<and>
    (\<forall>f e' w'. start ses (init cs fsize) w = Some (Inr f, e', w') \<longrightarrow>
      (\<exists>t sv. trace w' = t @ [Commit (sha1 e') (part_array e')] \<and>
              fst (commit ses (sha1 e') (part_array e') sv) = Inr f) \<and>
      sha1 e' = delivered (script cs) \<and>
      int (length (part_array e')) = total_parts ses \<and>
      (\<forall>i<length (part_array e').
         part_offset (part_array e' ! i) = int i * part_size ses \<and>
         part_len (part_array e' ! i) = min (part_size ses) (fsize - int i * part_size ses) \<and>
         0 < part_len (part_array e' ! i) \<and>
         (Suc i < length (part_array e') \<longrightarrow>
            part_len (part_array e' ! i) = part_size ses \<and>
            part_offset (part_array e' ! Suc i) =
              part_offset (part_array e' ! i) + part_len (part_array e' ! i)) \<and>
         (Suc i = length (part_array e') \<longrightarrow>
            part_offset (part_array e' ! i) + part_len (part_array e' ! i) = fsize)))"
proof (rule conjI, goal_cases)
  case 1
  let ?e = "init cs fsize"
  have e: "content_stream ?e = Some cs" "\<not> is_aborted ?e" by (simp_all add: init_def)
  from upload_returns [OF refl e(1) ex, of ses w]
  obtain x e1 w1 where up: "upload ses ?e w = Some (x, e1, w1)" by blast
  show ?case
  proof (cases x)
    case (Some err)
    with up e(2) show ?thesis by (simp add: start_def upload_then_commit_def)
  next
    case None
    with up e(2) show ?thesis
      by (cases "commit ses (sha1 e1) (part_array e1) (server w1)")
        (simp add: start_def upload_then_commit_def)
  qed
next
  case 2
  show ?case
  proof (intro allI impI)
  fix f e' w'
  assume st: "start ses (init cs fsize) w = Some (Inr f, e', w')"
  let ?e = "init cs fsize" and ?p = "part_size ses" and ?D = "delivered (script cs)"
  let ?n = "nat (total_parts ses)"
  have e: "content_stream ?e = Some cs" "inflight_part ?e = None" "part_array ?e = []"
    "part_definitions ?e = []" "sha1 ?e = []" "\<not> is_aborted ?e"
    by (simp_all add: init_def)
  from st e(6) have utc: "upload_then_commit ses ?e w = Some (Inr f, e', w')"
    by (simp add: start_def)
  then obtain w1 sv' where up: "upload ses ?e w = Some (None, e', w1)"
    and c: "commit ses (sha1 e') (part_array e') (server w1) = (Inr f, sv')"
    and w': "w' = w1\<lparr>server := sv', trace := trace w1 @ [Commit (sha1 e') (part_array e')]\<rparr>"
    by (auto simp: upload_then_commit_def split: option.splits prod.splits)
  have n: "?n = nat (total_parts ses - int (length (part_array ?e)))" using e by simp
  have nc: "\<forall>off. int (length (part_array ?e)) * ?p \<le> off \<longrightarrow>
      map_of (part_definitions ?e) off = None" using e by simp
  from upload_fresh_records [OF n up e(1) cl ex e(2) ps ct nc] e
  have parts: "\<forall>i<?n. part_offset (part_array e' ! i) = int i * ?p \<and>
        part_len (part_array e' ! i) =
          int (length (take (nat ?p) (drop (i * nat ?p) ?D)))"
    by simp
  from upload_hashes_stream [OF n up e(1) cl ex e(2)] e
  have sh: "sha1 e' = take (?n * nat ?p) ?D" and ln: "length (part_array e') = ?n"
    by simp_all
  from len have f0: "0 \<le> fsize" by auto
  with ps tp have t0: "0 \<le> total_parts ses" by (simp add: pos_imp_zdiv_nonneg_iff)
  from ceil_div_le [OF ps, of fsize] tp have "fsize \<le> total_parts ses * ?p" by simp
  with t0 ps len have "int (length ?D) \<le> int (?n * nat ?p)" by simp
  then have "length ?D \<le> ?n * nat ?p" by linarith
  with sh have digest: "sha1 e' = ?D" by simp
  from ln t0 have count: "int (length (part_array e')) = total_parts ses" by simp
  have below: "int i * ?p < fsize" if "i < ?n" for i
  proof -
    from that t0 have "int i < total_parts ses" by linarith
    with tp show ?thesis using ceil_div_gt [OF ps, of "int i" fsize] by simp
  qed
  have each: "part_offset (part_array e' ! i) = int i * ?p \<and>
         part_len (part_array e' ! i) = min ?p (fsize - int i * ?p) \<and>
         0 < part_len (part_array e' ! i) \<and>
         (Suc i < length (part_array e') \<longrightarrow>
            part_len (part_array e' ! i) = ?p \<and>
            part_offset (part_array e' ! Suc i) =
              part_offset (part_array e' ! i) + part_len (part_array e' ! i)) \<and>
         (Suc i = length (part_array e') \<longrightarrow>
            part_offset (part_array e' ! i) + part_len (part_array e' ! i) = fsize)"
    if i: "i < length (part_array e')" for i
  proof -
    from i ln have i': "i < ?n" by simp
    from below [OF i'] len have b: "int i * ?p < int (length ?D)" by simp
    from parts i' have o: "part_offset (part_array e' ! i) = int i * ?p"
      and l0: "part_len (part_array e' ! i) =
          int (length (take (nat ?p) (drop (i * nat ?p) ?D)))" by simp_all
    from l0 chunk_length [OF ps b] len
    have l: "part_len (part_array e' ! i) = min ?p (fsize - int i * ?p)" by simp
    from l below [OF i'] ps have pos: "0 < part_len (part_array e' ! i)" by simp
    have nxt: "part_len (part_array e' ! i) = ?p \<and>
            part_offset (part_array e' ! Suc i) =
              part_offset (part_array e' ! i) + part_len (part_array e' ! i)"
      if "Suc i < length (part_array e')"
    proof -
      from that ln have s: "Suc i < ?n" by simp
      from below [OF s] have "int i * ?p + ?p < fsize" by (simp add: distrib_right)
      with l have "part_len (part_array e' ! i) = ?p" by simp
      moreover from parts s have "part_offset (part_array e' ! Suc i) = int (Suc i) * ?p"
        by simp
      ultimately show ?thesis using o by (simp add: distrib_right)
    qed
    have lst: "part_offset (part_array e' ! i) + part_len (part_array e' ! i) = fsize"
      if "Suc i = length (part_array e')"
    proof -
      from that count have "total_parts ses = int i + 1" by simp
      with ceil_div_le [OF ps, of fsize] tp have "fsize \<le> (int i + 1) * ?p" by simp
      then have "fsize - int i * ?p \<le> ?p" by (simp add: distrib_right)
      with l o show ?thesis by simp
    qed
    from o l pos nxt lst show ?thesis by blast
  qed
  have all: "\<forall>i<length (part_array e').
         part_offset (part_array e' ! i) = int i * ?p \<and>
         part_len (part_array e' ! i) = min ?p (fsize - int i * ?p) \<and>
         0 < part_len (part_array e' ! i) \<and>
         (Suc i < length (part_array e') \<longrightarrow>
            part_len (part_array e' ! i) = ?p \<and>
            part_offset (part_array e' ! Suc i) =
              part_offset (part_array e' ! i) + part_len (part_array e' ! i)) \<and>
         (Suc i = length (part_array e') \<longrightarrow>
            part_offset (part_array e' ! i) + part_len (part_array e' ! i) = fsize)"
    using each by blast
  from c w' have tr: "\<exists>t sv. trace w' = t @ [Commit (sha1 e') (part_array e')] \<and>
              fst (commit ses (sha1 e') (part_array e') sv) = Inr f"
    by (intro exI [of _ "trace w1"] exI [of _ "server w1"]) simp
  from tr digest count all
  show "(\<exists>t sv. trace w' = t @ [Commit (sha1 e') (part_array e')] \<and>
              fst (commit ses (sha1 e') (part_array e') sv) = Inr f) \<and>
      sha1 e' = delivered (script cs) \<and>
      int (length (part_array e')) = total_parts ses \<and>
      (\<forall>i<length (part_array e').
         part_offset (part_array e' ! i) = int i * part_size ses \<and>
         part_len (part_array e' ! i) = min (part_size ses) (fsize - int i * part_size ses) \<and>
         0 < part_len (part_array e' ! i) \<and>
         (Suc i < length (part_array e') \<longrightarrow>
            part_len (part_array e' ! i) = part_size ses \<and>
            part_offset (part_array e' ! Suc i) =
              part_offset (part_array e' ! i) + part_len (part_array e' ! i)) \<and>
         (Suc i = length (part_array e') \<longrightarrow>
            part_offset (part_array e' ! i) + part_len (part_array e' ! i) = fsize))"
    by blast
  qed
qed

theorem start_commits_every_part_once_witness:
  "clean (script odd_stream) \<and> at_end odd_stream = Exhausted \<and>
   int (length (delivered (script odd_stream))) = 5 \<and>
   0 < part_size (test_session 3 2) \<and>
   total_parts (test_session 3 2) =
     (5 + part_size (test_session 3 2) - 1) div part_size (test_session 3 2) \<and>
   records_the_range (test_session 3 2) \<and>
   map_option (\<lambda>r. (fst r, part_array (fst (snd r)), sha1 (fst (snd r)), trace (snd (snd r))))
     (start (test_session 3 2) (init odd_stream 5) (demo_world 0)) =
     Some (Inr (File 0),
           [demo_part 0 [1, 2], demo_part 2 [3, 4], demo_part 4 [5]],
           [1, 2, 3, 4, 5],
           [Sha1Update 0 [1, 2], UploadPartBytes [1, 2] 0 5,
            Sha1Update 2 [3, 4], UploadPartBytes [3, 4] 2 5,
            Sha1Update 4 [5], UploadPartBytes [5] 4 5,
            Commit [1, 2, 3, 4, 5] [demo_part 0 [1, 2], demo_part 2 [3, 4], demo_part 4 [5]]])"
proof -
  have 1: "clean (script odd_stream)" and 2: "at_end odd_stream = Exhausted"
    and 3: "int (length (delivered (script odd_stream))) = 5"
    by (simp_all add: odd_stream_def)
  have 4: "0 < part_size (test_session 3 2)"
    and 5: "total_parts (test_session 3 2) =
      (5 + part_size (test_session 3 2) - 1) div part_size (test_session 3 2)"
    by (simp_all add: test_session_def)
  have 6: "records_the_range (test_session 3 2)" by (rule records_the_range_test_session)
  have 7: "map_option (\<lambda>r. (fst r, part_array (fst (snd r)), sha1 (fst (snd r)), trace (snd (snd r))))
     (start (test_session 3 2) (init odd_stream 5) (demo_world 0)) =
     Some (Inr (File 0),
           [demo_part 0 [1, 2], demo_part 2 [3, 4], demo_part 4 [5]],
           [1, 2, 3, 4, 5],
           [Sha1Update 0 [1, 2], UploadPartBytes [1, 2] 0 5,
            Sha1Update 2 [3, 4], UploadPartBytes [3, 4] 2 5,
            Sha1Update 4 [5], UploadPartBytes [5] 4 5,
            Commit [1, 2, 3, 4, 5] [demo_part 0 [1, 2], demo_part 2 [3, 4], demo_part 4 [5]]])"
    by code_simp
  from start_commits_every_part_once [OF 1 2 3 4 5 6, of "demo_world 0"] 1 2 3 4 5 6 7
  show ?thesis by simp
qed

subsection \<open>What resume uploads and hashes\<close>

lemma get_next_part_keeps:
  "get_next_part ses e = Some (r, e1) \<Longrightarrow>
     part_definitions e1 = part_definitions e \<and> part_array e1 = part_array e"
  by (auto simp: get_next_part_def split: option.splits sum.splits prod.splits)

lemma upload_iteration_calls:
  assumes it: "upload_iteration ses e w = Some (x, e1, w1)"
  shows "\<exists>new. trace w1 = trace w @ new \<and>
           (\<forall>c \<in> set (upload_calls new). map_of (part_definitions e) (fst (snd c)) = None) \<and>
           (\<forall>off. map_of (part_definitions e) off \<noteq> None \<longrightarrow>
                  map_of (part_definitions e1) off \<noteq> None) \<and>
           (x = None \<longrightarrow> length (part_array e1) = Suc (length (part_array e)))"
proof (cases "case inflight_part e of Some p \<Rightarrow> Some (Inr p, e) | None \<Rightarrow> get_next_part ses e")
  case None
  with it show ?thesis by (simp add: upload_iteration_def)
next
  case (Some a)
  obtain r e0 where a: "a = (r, e0)" by (cases a) auto
  from Some a have keep: "part_definitions e0 = part_definitions e \<and> part_array e0 = part_array e"
    by (auto split: option.splits dest: get_next_part_keeps)
  show ?thesis
  proof (cases r)
    case (Inl err)
    with it Some a keep show ?thesis by (auto simp: upload_iteration_def)
  next
    case (Inr np)
    show ?thesis
    proof (cases "map_of (part_definitions e0) (offset np)")
      case (Some cached)
      with it \<open>_ = Some a\<close> a Inr keep show ?thesis
        by (auto simp: upload_iteration_def record_part_def Let_def update_conv')
    next
      case None
      obtain r' sv' where u: "upload_part_bytes ses (chunk np) (offset np) (total_size np) (server w) = (r', sv')"
        by (cases "upload_part_bytes ses (chunk np) (offset np) (total_size np) (server w)") auto
      show ?thesis
      proof (cases r')
        case (Inl err)
        with it \<open>_ = Some a\<close> a Inr None u keep show ?thesis
          by (auto simp: upload_iteration_def InflightPart_upload_def Let_def)
      next
        case Inr': (Inr p)
        with it \<open>_ = Some a\<close> a Inr None u keep show ?thesis
          by (auto simp: upload_iteration_def InflightPart_upload_def record_part_def Let_def
              update_conv')
      qed
    qed
  qed
qed

lemma upload_calls_not_cached:
  assumes "n = nat (total_parts ses - int (length (part_array e)))"
    and "upload ses e w = Some (x, e', w')"
  shows "\<exists>new. trace w' = trace w @ new \<and>
           (\<forall>c \<in> set (upload_calls new). map_of (part_definitions e) (fst (snd c)) = None)"
  using assms
proof (induction n arbitrary: e w)
  case 0
  then have "\<not> int (length (part_array e)) < total_parts ses" by simp
  from upload_finished [OF this, of w] "0.prems"(2) show ?case by simp
next
  case (Suc n)
  from Suc.prems(1) have lt: "int (length (part_array e)) < total_parts ses" by simp
  show ?case
  proof (cases "upload_iteration ses e w")
    case None
    with lt Suc.prems(2) show ?thesis by (subst (asm) upload_unfold) simp
  next
    case (Some a)
    obtain y e1 w1 where a: "a = (y, e1, w1)" by (cases a) auto
    from upload_iteration_calls [of ses e w y e1 w1] Some a
    obtain new1 where t1: "trace w1 = trace w @ new1"
      and c1: "\<forall>c \<in> set (upload_calls new1). map_of (part_definitions e) (fst (snd c)) = None"
      and mono: "\<forall>off. map_of (part_definitions e) off \<noteq> None \<longrightarrow>
                  map_of (part_definitions e1) off \<noteq> None"
      and ln: "y = None \<longrightarrow> length (part_array e1) = Suc (length (part_array e))"
      by auto
    show ?thesis
    proof (cases y)
      case (Some err)
      with lt Suc.prems(2) \<open>upload_iteration ses e w = Some a\<close> a
      have "w' = w1" by (subst (asm) upload_unfold) simp
      with t1 c1 show ?thesis by blast
    next
      case None
      with lt Suc.prems(2) \<open>upload_iteration ses e w = Some a\<close> a
      have up: "upload ses e1 w1 = Some (x, e', w')" by (subst (asm) upload_unfold) simp
      from None ln Suc.prems(1) have "n = nat (total_parts ses - int (length (part_array e1)))"
        by simp
      from Suc.IH [OF this up]
      obtain new2 where t2: "trace w' = trace w1 @ new2"
        and c2: "\<forall>c \<in> set (upload_calls new2). map_of (part_definitions e1) (fst (snd c)) = None"
        by blast
      from c2 mono
      have "\<forall>c \<in> set (upload_calls new2). map_of (part_definitions e) (fst (snd c)) = None"
        by blast
      with c1 t1 t2 have "trace w' = trace w @ (new1 @ new2) \<and>
          (\<forall>c \<in> set (upload_calls (new1 @ new2)).
             map_of (part_definitions e) (fst (snd c)) = None)"
        by (auto simp: upload_calls_append)
      then show ?thesis by blast
    qed
  qed
qed

lemma listed_parts_cached:
  "p \<in> set parts \<Longrightarrow> map_of (part_definitions (reconcile parts e)) (part_offset p) \<noteq> None"
  by (auto simp: reconcile_definitions find_None_iff split: option.splits)

text \<open>
  Claim C2, as stated: \<^verbatim>\<open>resume\<close> uploads no part that \<^verbatim>\<open>get_parts\<close> lists, yet folds the
  bytes of every listed part into the hash, reading them from the stream. The second half
  fails when a part is in flight. In the run below the second upload of \<^verbatim>\<open>start\<close> raises;
  \<^verbatim>\<open>resume\<close> is then called on the same engine, and \<^verbatim>\<open>get_parts\<close> lists the part at offset 0.
  \<^verbatim>\<open>resume\<close> puts that part among the committed parts and goes on with the part in flight:
  it hashes the chunks at offsets 2 and 4 only, and nothing at offset 0.
\<close>

theorem resume_skips_upload_of_listed_parts_counterexample:
  "map_option (\<lambda>r. (fst r, fst (get_parts (test_session 3 2) (server (snd (snd r)))),
                    inflight_part (fst (snd r)), trace (snd (snd r))))
     (run_calls (test_session 3 2) [CallStart] (init demo_stream 6) (demo_world 2)) =
     Some ([Raised (SessionError 0)], Inr [demo_part 0 [1, 2]],
           Some \<lparr>offset = 2, chunk = [3, 4], total_size = 6\<rparr>,
           [Sha1Update 0 [1, 2], UploadPartBytes [1, 2] 0 6,
            Sha1Update 2 [3, 4], UploadPartBytes [3, 4] 2 6]) \<and>
   map_option (\<lambda>r. (fst r, trace (snd (snd r))))
     (run_calls (test_session 3 2) [CallStart, CallResume] (init demo_stream 6) (demo_world 2)) =
     Some ([Raised (SessionError 0), ReturnedFile (File 0)],
           [Sha1Update 0 [1, 2], UploadPartBytes [1, 2] 0 6,
            Sha1Update 2 [3, 4], UploadPartBytes [3, 4] 2 6] @
           [GetParts,
            Sha1Update 2 [3, 4], UploadPartBytes [3, 4] 2 6,
            Sha1Update 4 [5, 6], UploadPartBytes [5, 6] 4 6,
            Commit [1, 2, 3, 4, 3, 4, 5, 6]
              [demo_part 0 [1, 2], demo_part 2 [3, 4], demo_part 4 [5, 6]]]) \<and>
   part_offset (demo_part 0 [1, 2]) \<notin>
     fst ` set (sha1_updates
       [GetParts,
        Sha1Update 2 [3, 4], UploadPartBytes [3, 4] 2 6,
        Sha1Update 4 [5, 6], UploadPartBytes [5, 6] 4 6,
        Commit [1, 2, 3, 4, 3, 4, 5, 6]
          [demo_part 0 [1, 2], demo_part 2 [3, 4], demo_part 4 [5, 6]]])"
proof (intro conjI)
  show "map_option (\<lambda>r. (fst r, fst (get_parts (test_session 3 2) (server (snd (snd r)))),
                    inflight_part (fst (snd r)), trace (snd (snd r))))
     (run_calls (test_session 3 2) [CallStart] (init demo_stream 6) (demo_world 2)) =
     Some ([Raised (SessionError 0)], Inr [demo_part 0 [1, 2]],
           Some \<lparr>offset = 2, chunk = [3, 4], total_size = 6\<rparr>,
           [Sha1Update 0 [1, 2], UploadPartBytes [1, 2] 0 6,
            Sha1Update 2 [3, 4], UploadPartBytes [3, 4] 2 6])"
    by code_simp
  show "map_option (\<lambda>r. (fst r, trace (snd (snd r))))
     (run_calls (test_session 3 2) [CallStart, CallResume] (init demo_stream 6) (demo_world 2)) =
     Some ([Raised (SessionError 0), ReturnedFile (File 0)],
           [Sha1Update 0 [1, 2], UploadPartBytes [1, 2] 0 6,
            Sha1Update 2 [3, 4], UploadPartBytes [3, 4] 2 6] @
           [GetParts,
            Sha1Update 2 [3, 4], UploadPartBytes [3, 4] 2 6,
            Sha1Update 4 [5, 6], UploadPartBytes [5, 6] 4 6,
            Commit [1, 2, 3, 4, 3, 4, 5, 6]
              [demo_part 0 [1, 2], demo_part 2 [3, 4], demo_part 4 [5, 6]]])"
    by code_simp
  show "part_offset (demo_part 0 [1, 2]) \<notin>
     fst ` set (sha1_updates
       [GetParts,
        Sha1Update 2 [3, 4], UploadPartBytes [3, 4] 2 6,
        Sha1Update 4 [5, 6], UploadPartBytes [5, 6] 4 6,
        Commit [1, 2, 3, 4, 3, 4, 5, 6]
          [demo_part 0 [1, 2], demo_part 2 [3, 4], demo_part 4 [5, 6]]])"
    by (simp add: demo_part_def)
qed

text \<open>
  Claim C2, amended. \<^verbatim>\<open>resume\<close> never calls \<^verbatim>\<open>upload_part_bytes\<close> for an offset that
  \<^verbatim>\<open>get_parts\<close> lists: it enters every listed part in the definitions under its offset, and
  uploads at no offset that the definitions hold. When no part is in flight, the stream delivers its bytes without
  raising and then ends, and \<^verbatim>\<open>resume\<close> returns the file, it has read one chunk per offset
  from the stream, from offset 0 on and in the order of the offsets, and folded each into
  the hash, the listed parts included.
\<close>

theorem resume_skips_upload_of_listed_parts:
  assumes na: "\<not> is_aborted e" and gp: "get_parts ses (server w) = (Inr parts, sv')"
    and rs: "resume ses e w = Some (r, e', w')"
  shows "\<exists>new. trace w' = trace w @ GetParts # new \<and>
      (\<forall>p \<in> set parts.
         map_of (part_definitions (reconcile parts (e\<lparr>part_array := []\<rparr>))) (part_offset p) \<noteq>
           None) \<and>
      (\<forall>c \<in> set (upload_calls new).
         map_of (part_definitions (reconcile parts (e\<lparr>part_array := []\<rparr>))) (fst (snd c)) =
           None \<and>
         fst (snd c) \<notin> part_offset ` set parts) \<and>
      (inflight_part e = None \<and> content_stream e = Some s \<and> clean (script s) \<and>
       at_end s = Exhausted \<and> (\<exists>f. r = Inr f) \<longrightarrow>
         sha1_updates new =
           map (\<lambda>i. (int i * part_size ses,
                      take (nat (part_size ses))
                        (drop (i * nat (part_size ses)) (delivered (script s)))))
             [0..<nat (total_parts ses)] \<and>
         sha1 e' =
           sha1 e @ take (nat (total_parts ses) * nat (part_size ses)) (delivered (script s)))"
proof -
  let ?e0 = "reconcile parts (e\<lparr>part_array := []\<rparr>)"
  let ?w0 = "w\<lparr>server := sv', trace := trace w @ [GetParts]\<rparr>"
  let ?P = "nat (part_size ses)" and ?D = "delivered (script s)"
  let ?hashed = "map (\<lambda>i. (int i * part_size ses, take ?P (drop (i * ?P) ?D)))
             [0..<nat (total_parts ses)]"
  from resume_unfold [OF na gp] rs
  have utc: "upload_then_commit ses ?e0 ?w0 = Some (r, e', w')" by simp
  then obtain x e1 w1 where up: "upload ses ?e0 ?w0 = Some (x, e1, w1)"
    by (cases "upload ses ?e0 ?w0") (auto simp: upload_then_commit_def)
  from upload_calls_not_cached [OF refl up]
  obtain new1 where t1: "trace w1 = trace ?w0 @ new1"
    and c1: "\<forall>c \<in> set (upload_calls new1). map_of (part_definitions ?e0) (fst (snd c)) = None"
    by blast
  have cached: "\<forall>p \<in> set parts. map_of (part_definitions ?e0) (part_offset p) \<noteq> None"
    using listed_parts_cached [of _ parts "e\<lparr>part_array := []\<rparr>"] by blast
  from c1 have nl0: "\<forall>c \<in> set (upload_calls new1). fst (snd c) \<notin> part_offset ` set parts"
  proof (intro ballI notI)
    fix c assume c: "c \<in> set (upload_calls new1)" and "fst (snd c) \<in> part_offset ` set parts"
    then obtain p where "p \<in> set parts" and "fst (snd c) = part_offset p" by auto
    with listed_parts_cached [of p parts "e\<lparr>part_array := []\<rparr>"] c1 c show False
      by (metis option.distinct(1))
  qed
  with c1 have nl: "\<forall>c \<in> set (upload_calls new1).
      map_of (part_definitions ?e0) (fst (snd c)) = None \<and>
      fst (snd c) \<notin> part_offset ` set parts"
    by blast
  have fresh: "sha1_updates new1 = ?hashed \<and> sha1 e1 = sha1 e @ take (nat (total_parts ses) * ?P) ?D"
    if x: "x = None" and h: "inflight_part e = None" "content_stream e = Some s"
      "clean (script s)" "at_end s = Exhausted"
  proof -
    from h(1) have ni: "part_array ?e0 = [] \<and> inflight_part ?e0 = None"
      using reconcile_no_inflight [of "e\<lparr>part_array := []\<rparr>" parts] by simp
    have f: "content_stream ?e0 = Some s" "sha1 ?e0 = sha1 e"
      using reconcile_fields [of parts "e\<lparr>part_array := []\<rparr>"] h(2) by simp_all
    from ni have n: "nat (total_parts ses) = nat (total_parts ses - int (length (part_array ?e0)))"
      by simp
    from up x have up': "upload ses ?e0 ?w0 = Some (None, e1, w1)" by simp
    from upload_hashes_stream [OF n up' f(1) h(3,4)] ni f(2)
    have "sha1 e1 = sha1 e @ take (nat (total_parts ses) * ?P) ?D"
      and "sha1_updates (trace w1) = sha1_updates (trace ?w0) @ ?hashed"
      by simp_all
    with t1 show ?thesis by (simp add: sha1_updates_append)
  qed
  show ?thesis
  proof (cases x)
    case (Some err)
    with utc up have "w' = w1" "r = Inl err" by (simp_all add: upload_then_commit_def)
    with t1 nl have "trace w' = trace w @ GetParts # new1 \<and>
        (\<forall>c \<in> set (upload_calls new1).
           map_of (part_definitions ?e0) (fst (snd c)) = None \<and>
           fst (snd c) \<notin> part_offset ` set parts) \<and>
        \<not> (\<exists>f. r = Inr f)"
      by simp
    with cached show ?thesis by blast
  next
    case None
    with utc up have e': "e' = e1"
      and t: "trace w' = trace w1 @ [Commit (sha1 e1) (part_array e1)]"
      by (auto simp: upload_then_commit_def split: prod.splits)
    let ?new = "new1 @ [Commit (sha1 e1) (part_array e1)]"
    from t t1 have 1: "trace w' = trace w @ GetParts # ?new" by simp
    from nl have 2: "\<forall>c \<in> set (upload_calls ?new).
        map_of (part_definitions ?e0) (fst (snd c)) = None \<and>
        fst (snd c) \<notin> part_offset ` set parts"
      by (simp add: upload_calls_append)
    have 3: "inflight_part e = None \<and> content_stream e = Some s \<and> clean (script s) \<and>
       at_end s = Exhausted \<and> (\<exists>f. r = Inr f) \<longrightarrow>
         sha1_updates ?new = ?hashed \<and>
         sha1 e' = sha1 e @ take (nat (total_parts ses) * ?P) ?D"
      using fresh [OF None] e' by (simp add: sha1_updates_append)
    from 1 2 3 cached show ?thesis by blast
  qed
qed

theorem resume_skips_upload_of_listed_parts_witness:
  "\<not> is_aborted (init demo_stream 6) \<and>
   get_parts (test_session 3 2) (server \<lparr>server = ([demo_part 0 [1, 2]], 0), trace = []\<rparr>) =
     (Inr [demo_part 0 [1, 2]], ([demo_part 0 [1, 2]], 0)) \<and>
   inflight_part (init demo_stream 6) = None \<and>
   content_stream (init demo_stream 6) = Some demo_stream \<and>
   clean (script demo_stream) \<and> at_end demo_stream = Exhausted \<and>
   map_option (\<lambda>r. (fst r, sha1 (fst (snd r)), trace (snd (snd r))))
     (resume (test_session 3 2) (init demo_stream 6)
        \<lparr>server = ([demo_part 0 [1, 2]], 0), trace = []\<rparr>) =
     Some (Inr (File 0), [1, 2, 3, 4, 5, 6],
           [GetParts, Sha1Update 0 [1, 2],
            Sha1Update 2 [3, 4], UploadPartBytes [3, 4] 2 6,
            Sha1Update 4 [5, 6], UploadPartBytes [5, 6] 4 6,
            Commit [1, 2, 3, 4, 5, 6]
              [demo_part 0 [1, 2], demo_part 2 [3, 4], demo_part 4 [5, 6]]])"
proof -
  let ?w = "\<lparr>server = ([demo_part 0 [1, 2]], 0), trace = []\<rparr> :: test_server world"
  have 1: "\<not> is_aborted (init demo_stream 6)" and 3: "inflight_part (init demo_stream 6) = None"
    and 4: "content_stream (init demo_stream 6) = Some demo_stream"
    by (simp_all add: init_def)
  have 2: "get_parts (test_session 3 2) (server ?w) =
     (Inr [demo_part 0 [1, 2]], ([demo_part 0 [1, 2]], 0))"
    by (simp add: test_session_def)
  have 5: "clean (script demo_stream)" and 6: "at_end demo_stream = Exhausted"
    by (simp_all add: demo_stream_def)
  have 7: "map_option (\<lambda>r. (fst r, sha1 (fst (snd r)), trace (snd (snd r))))
     (resume (test_session 3 2) (init demo_stream 6) ?w) =
     Some (Inr (File 0), [1, 2, 3, 4, 5, 6],
           [GetParts, Sha1Update 0 [1, 2],
            Sha1Update 2 [3, 4], UploadPartBytes [3, 4] 2 6,
            Sha1Update 4 [5, 6], UploadPartBytes [5, 6] 4 6,
            Commit [1, 2, 3, 4, 5, 6]
              [demo_part 0 [1, 2], demo_part 2 [3, 4], demo_part 4 [5, 6]]])"
    by code_simp
  then obtain r e' w' where rs: "resume (test_session 3 2) (init demo_stream 6) ?w = Some (r, e', w')"
    by (cases "resume (test_session 3 2) (init demo_stream 6) ?w") auto
  from resume_skips_upload_of_listed_parts [OF 1 2 rs, of demo_stream] 1 2 3 4 5 6 7 show ?thesis by simp
qed

text \<open>
  Claim C1: the digest that a run interrupted after a part and completed by \<^verbatim>\<open>resume\<close>
  passes to the commit is the digest of an uninterrupted \<^verbatim>\<open>start\<close>; the hash is updated
  once per offset. The code does not do this when an upload raises. The loop updates the
  hash before it uploads the part; when the upload raises, the part stays in flight, and
  \<^verbatim>\<open>resume\<close> takes the same part through the same update again. Below, the uninterrupted
  run of six bytes in parts of two commits the hash of 1, 2, 3, 4, 5, 6; the run whose
  second upload raises, resumed on the same engine, hashes the chunk at offset 2 twice and
  commits the hash of 1, 2, 3, 4, 3, 4, 5, 6.
\<close>

theorem resume_after_failed_upload_hashes_part_twice:
  "map_option (\<lambda>r. (fst r, sha1_updates (trace (snd (snd r))), last (trace (snd (snd r)))))
     (run_calls (test_session 3 2) [CallStart] (init demo_stream 6) (demo_world 0)) =
     Some ([ReturnedFile (File 0)], [(0, [1, 2]), (2, [3, 4]), (4, [5, 6])],
           Commit [1, 2, 3, 4, 5, 6]
             [demo_part 0 [1, 2], demo_part 2 [3, 4], demo_part 4 [5, 6]]) \<and>
   map_option (\<lambda>r. (fst r, sha1_updates (trace (snd (snd r))), last (trace (snd (snd r)))))
     (run_calls (test_session 3 2) [CallStart, CallResume] (init demo_stream 6) (demo_world 2)) =
     Some ([Raised (SessionError 0), ReturnedFile (File 0)],
           [(0, [1, 2]), (2, [3, 4]), (2, [3, 4]), (4, [5, 6])],
           Commit [1, 2, 3, 4, 3, 4, 5, 6]
             [demo_part 0 [1, 2], demo_part 2 [3, 4], demo_part 4 [5, 6]])"
  by (intro conjI; code_simp)

end
